theory Spec2Isabelle
  imports Main "HOL-Library.Multiset"
begin

section \<open>Data model of \<open>joint_distribution_named.py\<close>\<close>

text \<open>
  The exceptions the modelled code can raise. \<open>KeyError\<close> carries the missing key;
  \<open>RecursionError\<close> is the interpreter's answer to a recursion deeper than it allows.
\<close>

datatype error =
  KeyError string | RecursionError | AttributeError string | TypeError | ValueError

text \<open>
  The class \<open>_Node\<close>: a name, the declared parents (\<open>None\<close> for a ready-made
  distribution, otherwise the tuple of required argument names) and the mutable depth,
  which starts at \<open>-1\<close>.
\<close>

record Node =
  name :: string
  parents :: "string list option"
  depth :: int

text \<open>
  The input of the resolver is a Python dict from names to dependency declarations. It is
  modelled as an association list in insertion order; a dict has no duplicate keys.
  The \<open>_Node\<close> objects are mutable and shared between the dict \<open>annotated_graph\<close> and
  the recursion, so they live in a store addressed by their key.
\<close>

type_synonym graph = "(string \<times> string list option) list"

type_synonym store = "string \<rightharpoonup> Node"

type_synonym entry = "string \<times> string list option"

text \<open>Python truthiness of \<open>v.parents\<close>: \<open>None\<close> and the empty tuple are false.\<close>

definition truthy :: "string list option \<Rightarrow> bool" where
  "truthy ps = (case ps of None \<Rightarrow> False | Some l \<Rightarrow> l \<noteq> [])"

section \<open>The depth annotator \<open>_depth\<close>\<close>

text \<open>
  \<open>_explore\<close> inside \<open>_depth\<close>. The first argument bounds the number of nested calls of
  \<open>_explore\<close>; it stands for the interpreter's recursion limit, which also counts the
  frames around them. \<open>depth_explore\<close> is the call \<open>_explore(v)\<close>
  for the node stored under \<open>k\<close>; \<open>depth_parents\<close> is the list comprehension
  \<open>[_explore(annotated_graph[u]) for u in v.parents]\<close>, whose subscript raises
  \<open>KeyError\<close> on a name that is no key. \<open>_depth\<close> only explores nodes it has looked
  up, so the first case of \<open>depth_explore (Suc f)\<close> is never taken from there.
\<close>

fun depth_explore :: "nat \<Rightarrow> string \<Rightarrow> store \<Rightarrow> error + (int \<times> store)"
  and depth_parents :: "nat \<Rightarrow> string list \<Rightarrow> store \<Rightarrow> error + (int list \<times> store)"
where
  "depth_explore 0 k h = Inl RecursionError"
| "depth_explore (Suc f) k h =
    (case h k of
       None \<Rightarrow> Inl (KeyError k)
     | Some v \<Rightarrow>
        if depth v < 0 then
          (if truthy (parents v) then
             (case depth_parents f (the (parents v)) h of
                Inl e \<Rightarrow> Inl e
              | Inr (ds, h') \<Rightarrow>
                  let d = 1 + fold max ds (- 1)
                  in Inr (d, h'(k \<mapsto> v\<lparr>depth := d\<rparr>)))
           else Inr (0, h(k \<mapsto> v\<lparr>depth := 0\<rparr>)))
        else Inr (depth v, h))"
| "depth_parents f [] h = Inr ([], h)"
| "depth_parents f (u # us) h =
    (case h u of
       None \<Rightarrow> Inl (KeyError u)
     | Some _ \<Rightarrow>
        (case depth_explore f u h of
           Inl e \<Rightarrow> Inl e
         | Inr (d, h') \<Rightarrow>
            (case depth_parents f us h' of
               Inl e \<Rightarrow> Inl e
             | Inr (ds, h'') \<Rightarrow> Inr (d # ds, h''))))"

text \<open>\<open>annotated_graph = {k: _Node(k, v) for k, v in g.items()}\<close>\<close>

definition annotate :: "graph \<Rightarrow> store" where
  "annotate g = map_of (map (\<lambda>(k, ps). (k, \<lparr>name = k, parents = ps, depth = - 1\<rparr>)) g)"

text \<open>\<open>for v in annotated_graph.values(): _explore(v)\<close>\<close>

fun depth_loop :: "nat \<Rightarrow> string list \<Rightarrow> store \<Rightarrow> error + store" where
  "depth_loop f [] h = Inr h"
| "depth_loop f (k # ks) h =
    (case depth_explore f k h of
       Inl e \<Rightarrow> Inl e
     | Inr (_, h') \<Rightarrow> depth_loop f ks h')"

definition depth_graph :: "nat \<Rightarrow> graph \<Rightarrow> error + store" where
  "depth_graph f g = depth_loop f (map fst g) (annotate g)"

section \<open>The order packer \<open>_best_order\<close>\<close>

text \<open>
  \<open>b[1].extend(xs)\<close> for the tuple \<open>b\<close> that sits at index \<open>i\<close> of \<open>result\<close>: the
  tuple's name stays, its list grows in place.
\<close>

definition extend_at :: "nat \<Rightarrow> string list \<Rightarrow> entry list \<Rightarrow> entry list" where
  "extend_at i xs result =
     result[i := (fst (result ! i), map_option (\<lambda>l. l @ xs) (snd (result ! i)))]"

text \<open>
  \<open>sorted((g.get(p) for p in u.parents), key=lambda v: v.depth)\<close>: a stable sort on the
  depths read when the sort starts. A name that is no key gives \<open>None\<close>, and the key
  function fails on it.
\<close>

definition sorted_parents :: "store \<Rightarrow> string list \<Rightarrow> error + string list" where
  "sorted_parents h ps =
     (if \<forall>p \<in> set ps. h p \<noteq> None
      then Inr (sort_key (\<lambda>p. depth (the (h p))) ps)
      else Inl (AttributeError ''depth''))"

text \<open>
  \<open>_explore\<close> inside \<open>_best_order\<close>, on the node stored under \<open>k\<close>, and the loop over
  its sorted parents. In the loop, \<open>i\<close> is the index of \<open>b\<close> in \<open>result\<close> and \<open>d\<close> the
  number of placeholders owed to the next parent; \<open>['_']*d\<close> is empty for a negative
  \<open>d\<close>. A key without a node stands for \<open>u = None\<close>, whose \<open>u.depth\<close> raises.
\<close>

fun best_order_explore :: "nat \<Rightarrow> string \<Rightarrow> store \<times> entry list \<Rightarrow> error + (store \<times> entry list)"
  and best_order_parents ::
    "nat \<Rightarrow> nat \<Rightarrow> int \<Rightarrow> string list \<Rightarrow> store \<times> entry list \<Rightarrow> error + (store \<times> entry list)"
where
  "best_order_explore 0 k (h, result) = Inl RecursionError"
| "best_order_explore (Suc f) k (h, result) =
    (case h k of
       None \<Rightarrow> Inl (AttributeError ''depth'')
     | Some u \<Rightarrow>
        if depth u < 0 then Inr (h, result)
        else if \<not> truthy (parents u) then
          Inr (h(k \<mapsto> u\<lparr>depth := - 1\<rparr>), result @ [(name u, parents u)])
        else
          (let result1 = result @ [(name u, Some [])];
               h1 = h(k \<mapsto> u\<lparr>depth := - 1\<rparr>)
           in case sorted_parents h1 (the (parents u)) of
                Inl e \<Rightarrow> Inl e
              | Inr vs \<Rightarrow> best_order_parents f (length result) 0 vs (h1, result1)))"
| "best_order_parents f i d [] (h, result) = Inr (h, result)"
| "best_order_parents f i d (v # vs) (h, result) =
    (case best_order_explore f v (h, result) of
       Inl e \<Rightarrow> Inl e
     | Inr (h', result') \<Rightarrow>
        let n0 = int (length result);
            n1 = int (length result')
        in best_order_parents f i (n1 - n0 - 1) vs
             (h', extend_at i (replicate (nat d) ''_'' @ [name (the (h' v))]) result'))"

text \<open>\<open>sorted(g.values(), key=lambda v: v.depth, reverse=True)\<close>, stable as well.\<close>

definition visit_order :: "store \<Rightarrow> string list \<Rightarrow> string list" where
  "visit_order h ks = sort_key (\<lambda>k. - depth (the (h k))) ks"

fun best_order_loop :: "nat \<Rightarrow> string list \<Rightarrow> store \<times> entry list \<Rightarrow> error + (store \<times> entry list)" where
  "best_order_loop f [] s = Inr s"
| "best_order_loop f (k # ks) s =
    (case best_order_explore f k s of
       Inl e \<Rightarrow> Inl e
     | Inr s' \<Rightarrow> best_order_loop f ks s')"

definition best_order :: "nat \<Rightarrow> graph \<Rightarrow> error + entry list" where
  "best_order f g =
     (case depth_graph f g of
        Inl e \<Rightarrow> Inl e
      | Inr h \<Rightarrow>
         (case best_order_loop f (visit_order h (map fst g)) (h, []) of
            Inl e \<Rightarrow> Inl e
          | Inr (_, result) \<Rightarrow> Inr (rev result)))"


section \<open>The invocation wrappers and \<open>_prob_chain_rule_flatten\<close>\<close>

text \<open>
  A maker is a distribution instance or a callable; of a callable the resolver only sees
  the required argument names that \<open>_get_required_args\<close> reports. Both helper functions
  live in other modules, so a maker carries their answers.
\<close>

datatype 'd maker = Distribution 'd | Callable 'd "string list"

definition required_args :: "'d maker \<Rightarrow> string list option" where
  "required_args m = (case m of Distribution _ \<Rightarrow> None | Callable _ as \<Rightarrow> Some as)"

text \<open>
  What a wrapper does with its maker when the executor calls it on the outputs so far:
  it returns the maker as it is, or calls it with keyword arguments.
\<close>

datatype ('m, 'v) invocation = Return_dist_fn 'm | Call_dist_fn 'm "string \<rightharpoonup> 'v"

text \<open>The four index-aligned tuples that \<open>_prob_chain_rule_flatten\<close> returns.\<close>

record ('d, 'v) resolved =
  dist_fn :: "'d maker option list"
  dist_fn_wrapped :: "('v list \<Rightarrow> ('d maker, 'v) invocation) list"
  dist_fn_args :: "string list option list"
  dist_fn_name :: "string list"

text \<open>
  \<open>xs[-n:]\<close> for a positive \<open>n\<close>: the last \<open>n\<close> elements, all of \<open>xs\<close> when it is
  shorter.
\<close>

definition last_n :: "nat \<Rightarrow> 'a list \<Rightarrow> 'a list" where
  "last_n n xs = drop (length xs - n) xs"

text \<open>
  \<open>_make(dist_fn, args)\<close> applied to the outputs \<open>xs\<close>, with \<open>fn\<close> for \<open>dist_fn\<close>. In
  \<open>_fn\<close>, \<open>dict(zip(...))\<close> lets a later pair win over an earlier one with the same
  key, as \<open>[\<mapsto>]\<close> does, and \<open>kwargs.pop('_', None)\<close> removes the key \<open>'_'\<close>.
\<close>

definition make :: "'m \<Rightarrow> string list option \<Rightarrow> 'v list \<Rightarrow> ('m, 'v) invocation" where
  "make fn args xs =
     (case args of
        None \<Rightarrow> Return_dist_fn fn
      | Some a \<Rightarrow>
          if a = [] then Call_dist_fn fn Map.empty
          else
            (let kwargs = Map.empty(a [\<mapsto>] rev (last_n (length a) xs))
             in Call_dist_fn fn (kwargs(''_'' := None))))"

text \<open>
  \<open>tuple(_make(named_makers[name], parents) for (name, parents) in g)\<close>; the subscript
  raises \<open>KeyError\<close> on a name that is no key.
\<close>

fun wrap_all ::
  "(string \<rightharpoonup> 'd maker) \<Rightarrow> entry list \<Rightarrow> error + ('v list \<Rightarrow> ('d maker, 'v) invocation) list"
where
  "wrap_all nm [] = Inr []"
| "wrap_all nm ((n, ps) # es) =
    (case nm n of
       None \<Rightarrow> Inl (KeyError n)
     | Some m \<Rightarrow>
        (case wrap_all nm es of
           Inl e \<Rightarrow> Inl e
         | Inr ws \<Rightarrow> Inr (make m ps # ws)))"

text \<open>
  \<open>g = {k: (None if is_distribution_instance(v) else _get_required_args(v))
  for k, v in named_makers.items()}\<close>
\<close>

definition dependencies :: "(string \<times> 'd maker) list \<Rightarrow> graph" where
  "dependencies named_makers = map (\<lambda>(k, v). (k, required_args v)) named_makers"

text \<open>
  \<open>_prob_chain_rule_flatten(named_makers)\<close>, on the makers in insertion order.
  The assignment to \<open>dist_fn_name, dist_fn_args\<close> unpacks the starred \<open>zip\<close> of \<open>g\<close>
  into two tuples; on an empty \<open>g\<close> the \<open>zip\<close> yields nothing and the unpacking raises
  \<open>ValueError\<close>.
\<close>

definition prob_chain_rule_flatten ::
  "nat \<Rightarrow> (string \<times> 'd maker) list \<Rightarrow> error + ('d, 'v) resolved"
where
  "prob_chain_rule_flatten f named_makers =
     (case best_order f (dependencies named_makers) of
        Inl e \<Rightarrow> Inl e
      | Inr g \<Rightarrow>
          if g = [] then Inl ValueError
          else
            (case wrap_all (map_of named_makers) g of
               Inl e \<Rightarrow> Inl e
             | Inr ws \<Rightarrow>
                 Inr \<lparr>dist_fn = map (\<lambda>n. map_of named_makers n) (map fst g),
                      dist_fn_wrapped = ws,
                      dist_fn_args = map snd g,
                      dist_fn_name = map fst g\<rparr>))"

text \<open>The executor's call of the wrapper at position \<open>i\<close> on the outputs \<open>xs\<close> so far.\<close>

definition call_wrapped :: "('d, 'v) resolved \<Rightarrow> nat \<Rightarrow> 'v list \<Rightarrow> ('d maker, 'v) invocation" where
  "call_wrapped r i xs = (dist_fn_wrapped r ! i) xs"

section \<open>\<open>_flatten\<close> and \<open>_unflatten\<close>\<close>

text \<open>
  Values are \<open>'v option\<close>, with \<open>None\<close> for Python's \<open>None\<close>. A named structure is
  \<open>None\<close>, a dict, or a namedtuple given by its fields in order.
\<close>

datatype 'v struct =
  NoneStruct
| Dict "string \<rightharpoonup> 'v option"
| NamedTuple "(string \<times> 'v option) list"

text \<open>\<open>type(self._original_model)\<close>: \<open>dict\<close>, or a namedtuple class with its field names.\<close>

datatype model_type = DictType | NamedTupleType "string list"

text \<open>\<open>hasattr(xs, 'get')\<close>; a namedtuple inherits no \<open>get\<close> from \<open>tuple\<close> or \<open>object\<close>.\<close>

definition hasattr_get :: "'v struct \<Rightarrow> bool" where
  "hasattr_get xs =
     (case xs of
        NoneStruct \<Rightarrow> False
      | Dict _ \<Rightarrow> True
      | NamedTuple fs \<Rightarrow> ''get'' \<in> set (map fst fs))"

text \<open>
  \<open>getattr(xs, n)\<close> on a namedtuple: a field gives its value; any other name is looked
  up among the attributes the object inherits from its class, \<open>tuple\<close> and \<open>object\<close>
  (\<open>count\<close>, \<open>index\<close>, \<open>_fields\<close>, \<open>_asdict\<close>, ...), and raises \<open>AttributeError\<close> when it
  is none of them. The classes are not part of this module, so the table of inherited
  attributes is a parameter: \<open>inherited fs\<close> for the object with the fields \<open>fs\<close>.
\<close>

definition getattr ::
  "((string \<times> 'v option) list \<Rightarrow> string \<rightharpoonup> 'v) \<Rightarrow> (string \<times> 'v option) list \<Rightarrow> string
     \<Rightarrow> error + 'v option" where
  "getattr inherited fs n =
     (case map_of fs n of
        Some v \<Rightarrow> Inr v
      | None \<Rightarrow> (case inherited fs n of None \<Rightarrow> Inl (AttributeError n) | Some a \<Rightarrow> Inr (Some a)))"

fun getattrs ::
  "((string \<times> 'v option) list \<Rightarrow> string \<rightharpoonup> 'v) \<Rightarrow> (string \<times> 'v option) list \<Rightarrow> string list
     \<Rightarrow> error + 'v option list" where
  "getattrs inherited fs [] = Inr []"
| "getattrs inherited fs (n # ns) =
    (case getattr inherited fs n of
       Inl e \<Rightarrow> Inl e
     | Inr v \<Rightarrow>
        (case getattrs inherited fs ns of Inl e \<Rightarrow> Inl e | Inr vs \<Rightarrow> Inr (v # vs)))"

text \<open>
  \<open>_flatten(xs)\<close> for the resolved names \<open>self._dist_fn_name\<close>. A namedtuple with a field
  called \<open>get\<close> takes the dict branch, where calling the field's value, which is data,
  raises \<open>TypeError\<close> for the first name.
\<close>

definition flatten ::
  "((string \<times> 'v option) list \<Rightarrow> string \<rightharpoonup> 'v) \<Rightarrow> string list \<Rightarrow> 'v struct
     \<Rightarrow> error + 'v option list" where
  "flatten inherited names xs =
     (case xs of
        NoneStruct \<Rightarrow> Inr (replicate (length names) None)
      | Dict m \<Rightarrow> Inr (map (\<lambda>n. case m n of None \<Rightarrow> None | Some v \<Rightarrow> v) names)
      | NamedTuple fs \<Rightarrow>
          if hasattr_get xs then (if names = [] then Inr [] else Inl TypeError)
          else getattrs inherited fs names)"

text \<open>
  \<open>_unflatten(xs)\<close>: \<open>dict(**kwargs)\<close> is \<open>kwargs\<close>; a namedtuple class raises
  \<open>TypeError\<close> unless the keywords are exactly its fields.
\<close>

definition unflatten :: "model_type \<Rightarrow> string list \<Rightarrow> 'v option list \<Rightarrow> error + 'v struct" where
  "unflatten mt names xs =
     (let kwargs = Map.empty(names [\<mapsto>] xs)
      in case mt of
           DictType \<Rightarrow> Inr (Dict kwargs)
         | NamedTupleType flds \<Rightarrow>
             if set (map fst (zip names xs)) = set flds
             then Inr (NamedTuple (map (\<lambda>f. (f, the (kwargs f))) flds))
             else Inl TypeError)"

text \<open>The value a structure holds under a name, if it holds one, and the names it has.\<close>

definition value_of :: "'v struct \<Rightarrow> string \<rightharpoonup> 'v option" where
  "value_of xs n =
     (case xs of NoneStruct \<Rightarrow> None | Dict m \<Rightarrow> m n | NamedTuple fs \<Rightarrow> map_of fs n)"

definition names_of :: "'v struct \<Rightarrow> string set" where
  "names_of xs = (case xs of NoneStruct \<Rightarrow> {} | Dict m \<Rightarrow> dom m | NamedTuple fs \<Rightarrow> set (map fst fs))"

section \<open>Well-formed collections\<close>

text \<open>
  The class docstring asks that every argument of a maker is a key of the collection:
  \<open>closed\<close>. \<open>edges\<close> is the dependency relation, parent first.
\<close>

definition closed :: "graph \<Rightarrow> bool" where
  "closed g = (\<forall>(k, ps) \<in> set g. \<forall>p \<in> set (case ps of None \<Rightarrow> [] | Some l \<Rightarrow> l). p \<in> set (map fst g))"

definition edges :: "graph \<Rightarrow> (string \<times> string) set" where
  "edges g = {(p, k). \<exists>ps. (k, Some ps) \<in> set g \<and> p \<in> set ps}"

text \<open>A rank that grows from every parent to its child; it exists when the edges are acyclic.\<close>

definition ranked :: "graph \<Rightarrow> (string \<Rightarrow> nat) \<Rightarrow> bool" where
  "ranked g rank = (\<forall>k ps p. (k, Some ps) \<in> set g \<longrightarrow> p \<in> set ps \<longrightarrow> rank p < rank k)"

section \<open>Invariants of the two passes\<close>

text \<open>
  The store holds exactly one node per key, with the name and the parents the collection
  declares; only the depth varies.
\<close>

definition agrees :: "graph \<Rightarrow> store \<Rightarrow> bool" where
  "agrees g h =
     (\<forall>k. (case map_of g k of
             None \<Rightarrow> h k = None
           | Some ps \<Rightarrow> \<exists>d. h k = Some \<lparr>name = k, parents = ps, depth = d\<rparr>))"

text \<open>
  A depth that is set obeys the recurrence over depths that are set: \<open>max([-1] + ds)\<close>
  is the fold of \<open>max\<close> from \<open>-1\<close>.
\<close>

definition depth_ok :: "store \<Rightarrow> Node \<Rightarrow> bool" where
  "depth_ok h v =
     (if truthy (parents v)
      then (\<forall>p \<in> set (the (parents v)). \<exists>w. h p = Some w \<and> 0 \<le> depth w)
           \<and> depth v = 1 + fold max (map (\<lambda>p. depth (the (h p))) (the (parents v))) (- 1)
      else depth v = 0)"

definition dinv :: "store \<Rightarrow> bool" where
  "dinv h = (\<forall>k v. h k = Some v \<longrightarrow> 0 \<le> depth v \<longrightarrow> depth_ok h v)"

text \<open>A depth that is set is not touched again.\<close>

definition mono :: "store \<Rightarrow> store \<Rightarrow> bool" where
  "mono h h' = (\<forall>x v. h x = Some v \<longrightarrow> 0 \<le> depth v \<longrightarrow> h' x = Some v)"

text \<open>What \<open>depth_explore\<close> and \<open>depth_parents\<close> establish.\<close>

definition depth_post ::
  "graph \<Rightarrow> (string \<Rightarrow> nat) \<Rightarrow> store \<Rightarrow> string \<Rightarrow> int \<Rightarrow> store \<Rightarrow> bool" where
  "depth_post g rank h k d h' =
     (agrees g h' \<and> dinv h' \<and> mono h h' \<and> (\<forall>x. rank k < rank x \<longrightarrow> h' x = h x)
      \<and> (\<exists>v. h' k = Some v \<and> depth v = d) \<and> 0 \<le> d)"

definition depths_post ::
  "graph \<Rightarrow> (string \<Rightarrow> nat) \<Rightarrow> store \<Rightarrow> string list \<Rightarrow> int list \<Rightarrow> store \<Rightarrow> bool" where
  "depths_post g rank h ps ds h' =
     (agrees g h' \<and> dinv h' \<and> mono h h'
      \<and> (\<forall>x. (\<forall>p \<in> set ps. rank p < rank x) \<longrightarrow> h' x = h x)
      \<and> ds = map (\<lambda>p. depth (the (h' p))) ps
      \<and> (\<forall>p \<in> set ps. \<exists>w. h' p = Some w \<and> 0 \<le> depth w))"

text \<open>The number of proper ancestors of a node, a rank for an acyclic collection.\<close>

definition rank_of :: "graph \<Rightarrow> string \<Rightarrow> nat" where
  "rank_of g k = card {x. (x, k) \<in> (edges g)\<^sup>+}"

text \<open>The dependencies of the model in the class docstring.\<close>

definition docstring_graph :: graph where
  "docstring_graph =
     [(''e'', None), (''g'', Some [''e'']), (''n'', None), (''m'', Some [''n'', ''g'']),
      (''x'', Some [''m''])]"

text \<open>The packer reuses the depth as a flag: a negative depth marks a visited node.\<close>

definition visited :: "store \<Rightarrow> string set" where
  "visited h = {k. \<exists>v. h k = Some v \<and> depth v < 0}"

text \<open>An offsets list without its placeholders.\<close>

definition unpadded :: "string list \<Rightarrow> string list" where
  "unpadded l = filter (\<lambda>x. x \<noteq> ''_'') l"

text \<open>
  A finished entry: a node without parents carries its declaration; a node with parents
  carries a list that, placeholders apart, holds its parents.
\<close>

definition entry_ok :: "graph \<Rightarrow> entry \<Rightarrow> bool" where
  "entry_ok g e =
     (case map_of g (fst e) of
        None \<Rightarrow> False
      | Some ps \<Rightarrow>
          if truthy ps
          then (\<exists>l. snd e = Some l \<and> mset (unpadded l) = mset (unpadded (the ps))
                    \<and> length (the ps) \<le> length l)
          else snd e = ps)"

text \<open>
  What an exploration adds: entries for exactly the nodes it marks, each once, none of
  them visited before.
\<close>

definition emitted :: "graph \<Rightarrow> store \<Rightarrow> store \<Rightarrow> entry list \<Rightarrow> bool" where
  "emitted g h h' new =
     (agrees g h' \<and> visited h' = visited h \<union> set (map fst new) \<and> distinct (map fst new)
      \<and> set (map fst new) \<inter> visited h = {} \<and> (\<forall>e \<in> set new. entry_ok g e))"

definition best_post :: "graph \<Rightarrow> store \<Rightarrow> entry list \<Rightarrow> string \<Rightarrow> store \<Rightarrow> entry list \<Rightarrow> bool" where
  "best_post g h r k h' r' = (\<exists>new. r' = r @ new \<and> emitted g h h' new \<and> k \<in> visited h')"

definition parents_post ::
  "graph \<Rightarrow> store \<Rightarrow> entry list \<Rightarrow> nat \<Rightarrow> string list \<Rightarrow> store \<Rightarrow> entry list \<Rightarrow> bool" where
  "parents_post g h r i vs h' r' =
     (\<exists>added new. r' = extend_at i added r @ new \<and> unpadded added = unpadded vs
        \<and> length vs \<le> length added \<and> emitted g h h' new \<and> set vs \<subseteq> visited h')"

text \<open>Two chains feeding one node, and the model of the class docstring.\<close>

definition padded_graph :: graph where
  "padded_graph =
     [(''q'', None), (''r'', None), (''s'', Some [''q'']), (''t'', Some [''r'']),
      (''u'', Some [''s'', ''t''])]"

definition docstring_model :: "(string \<times> nat maker) list" where
  "docstring_model =
     [(''e'', Distribution 0), (''g'', Callable 1 [''e'']), (''n'', Distribution 2),
      (''m'', Callable 3 [''n'', ''g'']), (''x'', Callable 4 [''m''])]"

text \<open>\<open>unflatten(flatten(x))\<close>: an exception of \<open>_flatten\<close> ends the round trip.\<close>

definition unflatten_flatten ::
  "((string \<times> 'v option) list \<Rightarrow> string \<rightharpoonup> 'v) \<Rightarrow> model_type \<Rightarrow> string list \<Rightarrow> 'v struct
     \<Rightarrow> error + 'v struct" where
  "unflatten_flatten inherited mt names x =
     (case flatten inherited names x of Inl e \<Rightarrow> Inl e | Inr vs \<Rightarrow> unflatten mt names vs)"

text \<open>
  For the examples: a namedtuple that inherits the two public methods of \<open>tuple\<close>, with
  the values 0 and 1 standing for the bound methods.
\<close>

definition tuple_attributes :: "(string \<times> nat option) list \<Rightarrow> string \<rightharpoonup> nat" where
  "tuple_attributes fs = [''count'' \<mapsto> 0, ''index'' \<mapsto> 1]"

text \<open>The value \<open>_flatten\<close> reads under a name: \<open>None\<close> when the structure has none.\<close>

definition got :: "'v struct \<Rightarrow> string \<Rightarrow> 'v option" where
  "got x n = (case value_of x n of None \<Rightarrow> None | Some v \<Rightarrow> v)"

text \<open>
  For the collections that break the docstring's requirement: whenever a depth is set,
  the node's parents were all found among the keys.
\<close>

definition parents_present :: "graph \<Rightarrow> store \<Rightarrow> bool" where
  "parents_present g h =
     (\<forall>k v. h k = Some v \<longrightarrow> 0 \<le> depth v \<longrightarrow> truthy (parents v)
        \<longrightarrow> set (the (parents v)) \<subseteq> set (map fst g))"

definition keeps :: "store \<Rightarrow> store \<Rightarrow> bool" where
  "keeps h h' = (\<forall>x v. h x = Some v \<longrightarrow> 0 \<le> depth v \<longrightarrow> (\<exists>v'. h' x = Some v' \<and> 0 \<le> depth v'))"

text \<open>
  A rank that grows from every parent that is a key to its child, and the collection
  without the arguments that are no keys.
\<close>

definition ranked_keys :: "graph \<Rightarrow> (string \<Rightarrow> nat) \<Rightarrow> bool" where
  "ranked_keys g rank =
     (\<forall>k ps p. (k, Some ps) \<in> set g \<longrightarrow> p \<in> set ps \<longrightarrow> p \<in> set (map fst g) \<longrightarrow> rank p < rank k)"

definition restrict_keys :: "graph \<Rightarrow> graph" where
  "restrict_keys g = map (\<lambda>(k, ps). (k, map_option (filter (\<lambda>p. p \<in> set (map fst g))) ps)) g"

text \<open>
  The two ways the annotator fails: the recursion limit, which a ranked collection only
  meets at a node ranked at or above the limit, and the subscript of a name that is no key.
\<close>

definition failure :: "graph \<Rightarrow> (string \<Rightarrow> nat) \<Rightarrow> nat \<Rightarrow> string list \<Rightarrow> error \<Rightarrow> bool" where
  "failure g rank f ks e =
     ((e = RecursionError
         \<and> (ranked_keys g rank \<longrightarrow> (\<exists>k \<in> set ks. k \<in> set (map fst g) \<and> f \<le> rank k)))
      \<or> (\<exists>p. e = KeyError p \<and> p \<notin> set (map fst g)))"

definition explore_spec ::
  "graph \<Rightarrow> (string \<Rightarrow> nat) \<Rightarrow> nat \<Rightarrow> store \<Rightarrow> string \<Rightarrow> error + (int \<times> store) \<Rightarrow> bool" where
  "explore_spec g rank f h k res =
     (case res of
        Inl e \<Rightarrow> failure g rank f [k] e
      | Inr (d, h') \<Rightarrow> agrees g h' \<and> parents_present g h' \<and> keeps h h'
                      \<and> (\<exists>v. h' k = Some v \<and> 0 \<le> depth v))"

definition parents_spec ::
  "graph \<Rightarrow> (string \<Rightarrow> nat) \<Rightarrow> nat \<Rightarrow> store \<Rightarrow> string list \<Rightarrow> error + (int list \<times> store) \<Rightarrow> bool" where
  "parents_spec g rank f h ps res =
     (case res of
        Inl e \<Rightarrow> failure g rank f ps e
      | Inr (ds, h') \<Rightarrow> agrees g h' \<and> parents_present g h' \<and> keeps h h'
                       \<and> set ps \<subseteq> set (map fst g))"

definition loop_spec ::
  "graph \<Rightarrow> (string \<Rightarrow> nat) \<Rightarrow> nat \<Rightarrow> store \<Rightarrow> string list \<Rightarrow> error + store \<Rightarrow> bool" where
  "loop_spec g rank f h ks res =
     (case res of
        Inl e \<Rightarrow> failure g rank f ks e
      | Inr h' \<Rightarrow> agrees g h' \<and> parents_present g h' \<and> keeps h h'
                 \<and> (\<forall>k \<in> set ks. \<exists>v. h' k = Some v \<and> 0 \<le> depth v))"

text \<open>A maker that names a dependency outside the collection.\<close>

definition dangling_model :: "(string \<times> nat maker) list" where
  "dangling_model = [(''a'', Distribution 0), (''b'', Callable 1 [''a'', ''z''])]"

text \<open>A maker that requires itself before the name that is no key.\<close>

definition cyclic_dangling_model :: "(string \<times> nat maker) list" where
  "cyclic_dangling_model = [(''a'', Callable 0 [''a'', ''z''])]"













text \<open>One parent shared by two children, as dependencies and as makers.\<close>

definition shared_parent_graph :: graph where
  "shared_parent_graph = [(''a'', Some []), (''b'', Some [''a'']), (''c'', Some [''a''])]"

definition shared_parent_model :: "(string \<times> nat maker) list" where
  "shared_parent_model =
     [(''a'', Callable 0 []), (''b'', Callable 1 [''a'']), (''c'', Callable 2 [''a''])]"



section \<open>The depth annotator terminates and computes the recurrence\<close>

lemma map_of_annotate:
  "map_of (map (\<lambda>(k, ps). (k, F k ps)) g) k = map_option (F k) (map_of g k)"
  by (induction g) auto

lemma agrees_annotate: "agrees g (annotate g)"
  unfolding agrees_def annotate_def
  by (auto simp: map_of_annotate split: option.splits)

lemma agrees_at:
  assumes "agrees g h"
  shows "case map_of g k of None \<Rightarrow> h k = None
         | Some ps \<Rightarrow> \<exists>d. h k = Some \<lparr>name = k, parents = ps, depth = d\<rparr>"
  using assms unfolding agrees_def by (rule spec)

lemma agrees_key:
  assumes "agrees g h" "k \<in> set (map fst g)"
  shows "\<exists>ps d. map_of g k = Some ps \<and> h k = Some \<lparr>name = k, parents = ps, depth = d\<rparr>"
proof -
  from assms(2) have "map_of g k \<noteq> None" by (simp add: map_of_eq_None_iff)
  then obtain ps where ps: "map_of g k = Some ps" by auto
  with agrees_at[OF assms(1), of k] show ?thesis by simp
qed

lemma agrees_Some:
  assumes "agrees g h" "h k = Some v"
  shows "name v = k \<and> map_of g k = Some (parents v)"
  using agrees_at[OF assms(1), of k] assms(2)
  by (cases "map_of g k") auto

lemma agrees_upd:
  assumes "agrees g h" "h k = Some v"
  shows "agrees g (h(k \<mapsto> v\<lparr>depth := d\<rparr>))"
  unfolding agrees_def
proof
  fix x
  show "case map_of g x of None \<Rightarrow> (h(k \<mapsto> v\<lparr>depth := d\<rparr>)) x = None
        | Some ps \<Rightarrow> \<exists>da. (h(k \<mapsto> v\<lparr>depth := d\<rparr>)) x = Some \<lparr>name = x, parents = ps, depth = da\<rparr>"
  proof (cases "x = k")
    case True
    from agrees_Some[OF assms] have "name v = k" "map_of g k = Some (parents v)" by auto
    with True show ?thesis by (cases v) auto
  next
    case False
    with agrees_at[OF assms(1), of x] show ?thesis
      by (cases "map_of g x") auto
  qed
qed

lemma fold_max_ge: "(a::int) \<le> fold max ds a"
proof (induction ds arbitrary: a)
  case Nil
  show ?case by simp
next
  case (Cons d ds)
  have "a \<le> max d a" by simp
  also have "\<dots> \<le> fold max ds (max d a)" by (rule Cons.IH)
  finally show ?case by simp
qed

lemma mono_refl: "mono h h"
  by (simp add: mono_def)

lemma mono_trans: "mono h h1 \<Longrightarrow> mono h1 h2 \<Longrightarrow> mono h h2"
  unfolding mono_def by blast

lemma depth_ok_cong:
  assumes "\<forall>p \<in> set (the (parents v)). h' p = h p"
  shows "depth_ok h' v = depth_ok h v"
proof -
  have eq: "map (\<lambda>p. depth (the (h' p))) (the (parents v)) = map (\<lambda>p. depth (the (h p))) (the (parents v))"
    using assms by (intro map_cong) auto
  have ex: "(\<forall>p \<in> set (the (parents v)). \<exists>w. h' p = Some w \<and> 0 \<le> depth w)
          = (\<forall>p \<in> set (the (parents v)). \<exists>w. h p = Some w \<and> 0 \<le> depth w)"
    using assms by auto
  show ?thesis
    unfolding depth_ok_def eq ex by (rule refl)
qed

lemma dinv_upd:
  assumes inv: "dinv h" and hk: "h k = Some v" and neg: "depth v < 0"
    and ok: "depth_ok (h(k \<mapsto> v')) v'"
  shows "dinv (h(k \<mapsto> v'))"
  unfolding dinv_def
proof (intro allI impI)
  fix x w
  assume hx: "(h(k \<mapsto> v')) x = Some w" and nn: "0 \<le> depth w"
  show "depth_ok (h(k \<mapsto> v')) w"
  proof (cases "x = k")
    case True
    with hx ok show ?thesis by simp
  next
    case False
    with hx have hx': "h x = Some w" by simp
    with inv nn have okw: "depth_ok h w" unfolding dinv_def by blast
    show ?thesis
    proof (cases "truthy (parents w)")
      case False
      with okw show ?thesis unfolding depth_ok_def by simp
    next
      case True
      have same: "\<forall>p \<in> set (the (parents w)). (h(k \<mapsto> v')) p = h p"
      proof
        fix p assume "p \<in> set (the (parents w))"
        with okw True obtain u where "h p = Some u" "0 \<le> depth u"
          unfolding depth_ok_def by auto
        with hk neg have "p \<noteq> k" by auto
        then show "(h(k \<mapsto> v')) p = h p" by simp
      qed
      from depth_ok_cong[of w "h(k \<mapsto> v')" h, OF same] okw show ?thesis by simp
    qed
  qed
qed

lemma depth_parents_total:
  assumes IH: "\<And>k h. agrees g h \<Longrightarrow> dinv h \<Longrightarrow> k \<in> set (map fst g) \<Longrightarrow> rank k < f
            \<Longrightarrow> \<exists>d h'. depth_explore f k h = Inr (d, h') \<and> depth_post g rank h k d h'"
  shows "agrees g h \<Longrightarrow> dinv h \<Longrightarrow> set ps \<subseteq> set (map fst g) \<Longrightarrow> \<forall>p \<in> set ps. rank p < f
         \<Longrightarrow> \<exists>ds h'. depth_parents f ps h = Inr (ds, h') \<and> depths_post g rank h ps ds h'"
proof (induction ps arbitrary: h)
  case Nil
  then show ?case by (simp add: depths_post_def mono_refl)
next
  case (Cons u us)
  from Cons.prems have u: "u \<in> set (map fst g)" "rank u < f" by auto
  from agrees_key[OF Cons.prems(1) u(1)] obtain v0 where hu: "h u = Some v0" by blast
  from IH[OF Cons.prems(1,2) u] obtain d h1 where
    e1: "depth_explore f u h = Inr (d, h1)" and p1: "depth_post g rank h u d h1" by blast
  from p1 have a1: "agrees g h1" "dinv h1" "mono h h1" unfolding depth_post_def by auto
  from Cons.prems have us: "set us \<subseteq> set (map fst g)" "\<forall>p \<in> set us. rank p < f" by auto
  from Cons.IH[OF a1(1,2) us] obtain ds h2 where
    e2: "depth_parents f us h1 = Inr (ds, h2)" and p2: "depths_post g rank h1 us ds h2" by blast
  from p2 have a2: "agrees g h2" "dinv h2" "mono h1 h2" unfolding depths_post_def by auto
  have ev: "depth_parents f (u # us) h = Inr (d # ds, h2)"
    using hu e1 e2 by simp
  from p1 obtain v where v: "h1 u = Some v" "depth v = d" "0 \<le> d" unfolding depth_post_def by blast
  with a2(3) have v2: "h2 u = Some v" unfolding mono_def by blast
  have frame: "\<forall>x. (\<forall>p \<in> set (u # us). rank p < rank x) \<longrightarrow> h2 x = h x"
    using p1 p2 unfolding depth_post_def depths_post_def by simp
  have ds: "d # ds = map (\<lambda>p. depth (the (h2 p))) (u # us)"
    using p2 v v2 unfolding depths_post_def by simp
  have nn: "\<forall>p \<in> set (u # us). \<exists>w. h2 p = Some w \<and> 0 \<le> depth w"
    using p2 v v2 unfolding depths_post_def by auto
  have "depths_post g rank h (u # us) (d # ds) h2"
    unfolding depths_post_def using a2(1,2) mono_trans[OF a1(3) a2(3)] frame ds nn by blast
  with ev show ?case by blast
qed

lemma closedD:
  assumes "closed g" "map_of g k = Some (Some ps)" "p \<in> set ps"
  shows "p \<in> set (map fst g)"
proof -
  from assms(2) have "(k, Some ps) \<in> set g" by (rule map_of_SomeD)
  with assms(1,3) show ?thesis unfolding closed_def by fastforce
qed

lemma rankedD:
  assumes "ranked g rank" "map_of g k = Some (Some ps)" "p \<in> set ps"
  shows "rank p < rank k"
proof -
  from assms(2) have "(k, Some ps) \<in> set g" by (rule map_of_SomeD)
  with assms(1,3) show ?thesis unfolding ranked_def by blast
qed

lemma truthy_Some: "truthy ps \<Longrightarrow> ps = Some (the ps)"
  by (cases ps) (auto simp: truthy_def)

lemma depth_explore_total:
  assumes cl: "closed g" and rk: "ranked g rank"
  shows "agrees g h \<Longrightarrow> dinv h \<Longrightarrow> k \<in> set (map fst g) \<Longrightarrow> rank k < f
         \<Longrightarrow> \<exists>d h'. depth_explore f k h = Inr (d, h') \<and> depth_post g rank h k d h'"
proof (induction f arbitrary: k h)
  case 0
  then show ?case by simp
next
  case (Suc f)
  from agrees_key[OF Suc.prems(1,3)] obtain v where hk: "h k = Some v" by blast
  from agrees_Some[OF Suc.prems(1) hk] have nm: "name v = k" and mg: "map_of g k = Some (parents v)"
    by auto
  show ?case
  proof (cases "depth v < 0")
    case False
    then have ev: "depth_explore (Suc f) k h = Inr (depth v, h)" using hk by simp
    have "depth_post g rank h k (depth v) h"
      unfolding depth_post_def using Suc.prems(1,2) hk False by (simp add: mono_refl)
    with ev show ?thesis by blast
  next
    case neg: True
    show ?thesis
    proof (cases "truthy (parents v)")
      case False
      let ?v' = "v\<lparr>depth := 0\<rparr>"
      let ?h' = "h(k \<mapsto> ?v')"
      have ev: "depth_explore (Suc f) k h = Inr (0, ?h')" using hk neg False by simp
      have ok: "depth_ok ?h' ?v'" unfolding depth_ok_def using False by simp
      have d: "dinv ?h'" by (rule dinv_upd[OF Suc.prems(2) hk neg ok])
      have m: "mono h ?h'" unfolding mono_def using hk neg by auto
      have fr: "\<forall>x. rank k < rank x \<longrightarrow> ?h' x = h x" by auto
      have "depth_post g rank h k 0 ?h'"
        unfolding depth_post_def using agrees_upd[OF Suc.prems(1) hk] d m fr by simp
      with ev show ?thesis by blast
    next
      case True
      define ps where "ps = the (parents v)"
      from True have pv: "parents v = Some ps" unfolding ps_def by (rule truthy_Some)
      with mg have mg': "map_of g k = Some (Some ps)" by simp
      have sub: "set ps \<subseteq> set (map fst g)" using closedD[OF cl mg'] by blast
      have rks: "\<forall>p \<in> set ps. rank p < rank k" using rankedD[OF rk mg'] by blast
      with Suc.prems(4) have rkf: "\<forall>p \<in> set ps. rank p < f" by auto
      from depth_parents_total[where g = g and rank = rank and f = f and ps = ps and h = h,
          OF Suc.IH Suc.prems(1,2) sub rkf]
      obtain ds h1 where e1: "depth_parents f ps h = Inr (ds, h1)"
        and p1: "depths_post g rank h ps ds h1" by blast
      from p1 have a1: "agrees g h1" "dinv h1" "mono h h1"
        and fr1: "\<forall>x. (\<forall>p \<in> set ps. rank p < rank x) \<longrightarrow> h1 x = h x"
        and ds: "ds = map (\<lambda>p. depth (the (h1 p))) ps"
        and nn: "\<forall>p \<in> set ps. \<exists>w. h1 p = Some w \<and> 0 \<le> depth w"
        unfolding depths_post_def by auto
      define d where "d = 1 + fold max ds (- 1)"
      let ?v' = "v\<lparr>depth := d\<rparr>"
      let ?h' = "h1(k \<mapsto> ?v')"
      have ev: "depth_explore (Suc f) k h = Inr (d, ?h')"
        using hk neg True e1 unfolding ps_def d_def by (simp add: Let_def)
      have d0: "0 \<le> d" using fold_max_ge[of "- 1" ds] unfolding d_def by simp
      from fr1 rks have h1k: "h1 k = Some v" using hk by simp
      have same: "\<forall>p \<in> set ps. ?h' p = h1 p"
      proof
        fix p assume "p \<in> set ps"
        with rks have "p \<noteq> k" by auto
        then show "?h' p = h1 p" by simp
      qed
      have eq: "map (\<lambda>p. depth (the (?h' p))) ps = ds"
        unfolding ds using same by (intro map_cong) auto
      have ok: "depth_ok ?h' ?v'"
        unfolding depth_ok_def using True pv nn same eq d_def by simp
      have dv: "dinv ?h'" by (rule dinv_upd[OF a1(2) h1k neg ok])
      have m: "mono h ?h'" unfolding mono_def
      proof (intro allI impI)
        fix x w assume "h x = Some w" "0 \<le> depth w"
        with a1(3) hk neg have "h1 x = Some w" "x \<noteq> k" unfolding mono_def by auto
        then show "?h' x = Some w" by simp
      qed
      have fr: "\<forall>x. rank k < rank x \<longrightarrow> ?h' x = h x"
      proof (intro allI impI)
        fix x assume a: "rank k < rank x"
        with rks have "\<forall>p \<in> set ps. rank p < rank x" by auto
        with fr1 have "h1 x = h x" by blast
        moreover from a have "x \<noteq> k" by auto
        ultimately show "?h' x = h x" by simp
      qed
      have "depth_post g rank h k d ?h'"
        unfolding depth_post_def using agrees_upd[OF a1(1) h1k] dv m fr d0 by simp
      with ev show ?thesis by blast
    qed
  qed
qed

lemma depth_loop_total:
  assumes cl: "closed g" and rk: "ranked g rank" and fuel: "\<forall>k \<in> set (map fst g). rank k < f"
  shows "agrees g h \<Longrightarrow> dinv h \<Longrightarrow> set ks \<subseteq> set (map fst g)
         \<Longrightarrow> \<exists>h'. depth_loop f ks h = Inr h' \<and> agrees g h' \<and> dinv h' \<and> mono h h'
                \<and> (\<forall>k \<in> set ks. \<exists>w. h' k = Some w \<and> 0 \<le> depth w)"
proof (induction ks arbitrary: h)
  case Nil
  then show ?case by (simp add: mono_refl)
next
  case (Cons k ks)
  from Cons.prems(3) have kin: "k \<in> set (map fst g)" and sub: "set ks \<subseteq> set (map fst g)" by auto
  from fuel kin have kf: "rank k < f" by blast
  from depth_explore_total[OF cl rk Cons.prems(1,2) kin kf] obtain d h1 where
    e1: "depth_explore f k h = Inr (d, h1)" and p1: "depth_post g rank h k d h1" by blast
  from p1 have a1: "agrees g h1" "dinv h1" "mono h h1" unfolding depth_post_def by auto
  from p1 obtain v where v: "h1 k = Some v" "0 \<le> depth v" unfolding depth_post_def by auto
  from Cons.IH[OF a1(1,2) sub] obtain h2 where
    e2: "depth_loop f ks h1 = Inr h2" and a2: "agrees g h2" "dinv h2" "mono h1 h2"
    and nn: "\<forall>k \<in> set ks. \<exists>w. h2 k = Some w \<and> 0 \<le> depth w" by blast
  from v a2(3) have "h2 k = Some v" unfolding mono_def by blast
  with v nn have nn': "\<forall>x \<in> set (k # ks). \<exists>w. h2 x = Some w \<and> 0 \<le> depth w" by auto
  have "depth_loop f (k # ks) h = Inr h2" using e1 e2 by simp
  with a2(1,2) mono_trans[OF a1(3) a2(3)] nn' show ?case by blast
qed

lemma dinv_annotate: "dinv (annotate g)"
proof -
  have "\<And>k v. annotate g k = Some v \<Longrightarrow> depth v = - 1"
    unfolding annotate_def by (auto simp: map_of_annotate)
  then show ?thesis unfolding dinv_def by fastforce
qed

lemma depth_graph_total:
  assumes cl: "closed g" and rk: "ranked g rank" and fuel: "\<forall>k \<in> set (map fst g). rank k < f"
  shows "\<exists>h. depth_graph f g = Inr h \<and> agrees g h \<and> dinv h
             \<and> (\<forall>k \<in> set (map fst g). \<exists>w. h k = Some w \<and> 0 \<le> depth w)"
proof -
  from depth_loop_total[OF cl rk fuel agrees_annotate dinv_annotate, of "map fst g"]
  show ?thesis unfolding depth_graph_def by blast
qed

lemma finite_edges: "finite (edges g)"
proof -
  let ?P = "set (concat (map (\<lambda>e. case snd e of None \<Rightarrow> [] | Some l \<Rightarrow> l) g))"
  have "edges g \<subseteq> ?P \<times> set (map fst g)"
  proof
    fix e assume "e \<in> edges g"
    then obtain p k ps where e: "e = (p, k)" and kp: "(k, Some ps) \<in> set g" and p: "p \<in> set ps"
      unfolding edges_def by auto
    from kp p have "p \<in> ?P" by force
    moreover from kp have "k \<in> set (map fst g)" by force
    ultimately show "e \<in> ?P \<times> set (map fst g)" using e by simp
  qed
  moreover have "finite (?P \<times> set (map fst g))"
    by (rule finite_cartesian_product) (rule finite_set)+
  ultimately show ?thesis by (rule finite_subset)
qed

lemma finite_ancestors: "finite {x. (x, k) \<in> (edges g)\<^sup>+}"
proof -
  have "finite (Domain (edges g))" using finite_edges by (rule finite_Domain)
  moreover have "{x. (x, k) \<in> (edges g)\<^sup>+} \<subseteq> Domain (edges g)"
    by (auto dest: tranclD)
  ultimately show ?thesis by (rule rev_finite_subset)
qed

lemma ranked_rank_of:
  assumes "acyclic (edges g)"
  shows "ranked g (rank_of g)"
  unfolding ranked_def
proof (intro allI impI)
  fix k ps p
  assume "(k, Some ps) \<in> set g" "p \<in> set ps"
  then have e: "(p, k) \<in> edges g" unfolding edges_def by auto
  have sub: "{x. (x, p) \<in> (edges g)\<^sup>+} \<subseteq> {x. (x, k) \<in> (edges g)\<^sup>+}"
    using e by (auto intro: trancl_into_trancl)
  have "p \<in> {x. (x, k) \<in> (edges g)\<^sup>+}" using e by auto
  moreover have "p \<notin> {x. (x, p) \<in> (edges g)\<^sup>+}" using assms by (simp add: acyclic_def)
  ultimately have "{x. (x, p) \<in> (edges g)\<^sup>+} \<subset> {x. (x, k) \<in> (edges g)\<^sup>+}"
    using sub by blast
  then show "rank_of g p < rank_of g k"
    unfolding rank_of_def by (rule psubset_card_mono[OF finite_ancestors])
qed

lemma rank_of_bound:
  assumes cl: "closed g" and ac: "acyclic (edges g)" and k: "k \<in> set (map fst g)"
  shows "rank_of g k < length g"
proof -
  have "{x. (x, k) \<in> (edges g)\<^sup>+} \<subseteq> set (map fst g) - {k}"
  proof
    fix x assume "x \<in> {x. (x, k) \<in> (edges g)\<^sup>+}"
    then have t: "(x, k) \<in> (edges g)\<^sup>+" by simp
    then obtain z where "(x, z) \<in> edges g" by (auto dest: tranclD)
    then obtain ps where "(z, Some ps) \<in> set g" "x \<in> set ps" unfolding edges_def by auto
    with cl have "x \<in> set (map fst g)" unfolding closed_def by fastforce
    moreover from t ac have "x \<noteq> k" by (auto simp: acyclic_def)
    ultimately show "x \<in> set (map fst g) - {k}" by simp
  qed
  then have "rank_of g k \<le> card (set (map fst g) - {k})"
    unfolding rank_of_def by (intro card_mono) auto
  also have "\<dots> < card (set (map fst g))" using k by (intro card_Diff1_less) auto
  also have "\<dots> \<le> length (map fst g)" by (rule card_length)
  finally show ?thesis by simp
qed

lemma acyclic_ranked:
  assumes "ranked g rank"
  shows "acyclic (edges g)"
proof -
  have step: "rank a < rank b" if "(a, b) \<in> edges g" for a b
  proof -
    from that obtain ps where "(b, Some ps) \<in> set g" "a \<in> set ps" unfolding edges_def by auto
    with assms show ?thesis unfolding ranked_def by blast
  qed
  have "rank a < rank b" if "(a, b) \<in> (edges g)\<^sup>+" for a b
    using that
  proof induct
    case (base y)
    then show ?case by (rule step)
  next
    case (step y z)
    from step(2) have "rank y < rank z" by (rule \<open>\<And>a b. (a, b) \<in> edges g \<Longrightarrow> rank a < rank b\<close>)
    with step(3) show ?case by simp
  qed
  then have "\<forall>x. (x, x) \<notin> (edges g)\<^sup>+" by fastforce
  then show ?thesis by (rule acyclicI)
qed

lemma fold_max_Max:
  assumes "xs \<noteq> []" "\<forall>x \<in> set xs. (a::int) \<le> x"
  shows "fold max xs a = Max (set xs)"
proof -
  have "Max (set (a # xs)) = fold max xs a" by (rule Max.set_eq_fold)
  then have "fold max xs a = Max (insert a (set xs))" by simp
  also have "\<dots> = max a (Max (set xs))" using assms(1) by simp
  also have "\<dots> = Max (set xs)" using assms by (simp add: max_def Max_ge_iff)
  finally show ?thesis .
qed

text \<open>
  C8. For a collection with distinct keys whose arguments are all keys and whose
  dependencies are acyclic, and a bound on nested calls of at least the number of nodes,
  \<open>_depth\<close> returns, and in the store it returns every node has a non-negative depth:
  0 when it has no parents (\<open>None\<close> or the empty tuple), otherwise 1 plus the maximum of
  its parents' depths.
\<close>

theorem depth_graph_correct:
  assumes dist: "distinct (map fst g)" and cl: "closed g" and ac: "acyclic (edges g)"
    and fuel: "length g \<le> f"
  shows "\<exists>h. depth_graph f g = Inr h \<and>
           (\<forall>(k, ps) \<in> set g. \<exists>v. h k = Some v \<and> name v = k \<and> parents v = ps \<and> 0 \<le> depth v \<and>
              depth v = (if truthy ps
                         then 1 + Max ((\<lambda>p. depth (the (h p))) ` set (the ps))
                         else 0))"
proof -
  have rf: "\<forall>k \<in> set (map fst g). rank_of g k < f"
    using rank_of_bound[OF cl ac] fuel by fastforce
  from depth_graph_total[OF cl ranked_rank_of[OF ac] rf] obtain h where
    ev: "depth_graph f g = Inr h" and ag: "agrees g h" and dv: "dinv h"
    and nn: "\<forall>k \<in> set (map fst g). \<exists>w. h k = Some w \<and> 0 \<le> depth w" by blast
  have "\<exists>v. h k = Some v \<and> name v = k \<and> parents v = ps \<and> 0 \<le> depth v \<and>
              depth v = (if truthy ps
                         then 1 + Max ((\<lambda>p. depth (the (h p))) ` set (the ps))
                         else 0)" if kp: "(k, ps) \<in> set g" for k ps
  proof -
    from kp have kin: "k \<in> set (map fst g)" by force
    with nn obtain v where v: "h k = Some v" "0 \<le> depth v" by blast
    from dist kp have "map_of g k = Some ps" by (rule map_of_is_SomeI)
    with agrees_Some[OF ag v(1)] have nv: "name v = k" "parents v = ps" by auto
    from dv v have ok: "depth_ok h v" unfolding dinv_def by blast
    have "depth v = (if truthy ps
                         then 1 + Max ((\<lambda>p. depth (the (h p))) ` set (the ps))
                         else 0)"
    proof (cases "truthy ps")
      case False
      with ok nv show ?thesis unfolding depth_ok_def by simp
    next
      case True
      with ok nv have all: "\<forall>p \<in> set (the ps). \<exists>w. h p = Some w \<and> 0 \<le> depth w"
        and dq: "depth v = 1 + fold max (map (\<lambda>p. depth (the (h p))) (the ps)) (- 1)"
        unfolding depth_ok_def by auto
      from True have ne: "map (\<lambda>p. depth (the (h p))) (the ps) \<noteq> []"
        by (cases ps) (auto simp: truthy_def)
      have ge: "\<forall>x \<in> set (map (\<lambda>p. depth (the (h p))) (the ps)). - 1 \<le> x"
        using all by fastforce
      from fold_max_Max[OF ne ge] dq True show ?thesis by simp
    qed
    with v nv show ?thesis by blast
  qed
  with ev show ?thesis by blast
qed

theorem depth_graph_correct_witness:
  "distinct (map fst docstring_graph) \<and> closed docstring_graph \<and> acyclic (edges docstring_graph)
   \<and> length docstring_graph \<le> 5
   \<and> (\<exists>h. depth_graph 5 docstring_graph = Inr h \<and>
           (\<forall>(k, ps) \<in> set docstring_graph.
              \<exists>v. h k = Some v \<and> name v = k \<and> parents v = ps \<and> 0 \<le> depth v \<and>
              depth v = (if truthy ps
                         then 1 + Max ((\<lambda>p. depth (the (h p))) ` set (the ps))
                         else 0)))"
proof -
  have d: "distinct (map fst docstring_graph)" by (simp add: docstring_graph_def)
  have c: "closed docstring_graph" by (simp add: docstring_graph_def closed_def)
  have "ranked docstring_graph
          (\<lambda>k. if k = ''x'' then 3 else if k = ''m'' then 2 else if k = ''g'' then 1 else 0)"
    by (auto simp: docstring_graph_def ranked_def)
  then have a: "acyclic (edges docstring_graph)" by (rule acyclic_ranked)
  have l: "length docstring_graph \<le> 5" by (simp add: docstring_graph_def)
  from depth_graph_correct[OF d c a l] d c a l show ?thesis by blast
qed

section \<open>The order packer terminates and emits every node once\<close>

lemma extend_at_append:
  "i < length r \<Longrightarrow> extend_at i xs (r @ new) = extend_at i xs r @ new"
  by (simp add: extend_at_def list_update_append1 nth_append)

lemma extend_at_twice:
  "i < length r \<Longrightarrow> extend_at i ys (extend_at i xs r) = extend_at i (xs @ ys) r"
  by (simp add: extend_at_def option.map_comp comp_def)

lemma extend_at_Nil: "extend_at i [] r = r"
  by (simp add: extend_at_def option.map_ident)

lemma length_extend_at: "length (extend_at i xs r) = length r"
  by (simp add: extend_at_def)

lemma extend_at_last:
  "extend_at (length r) xs (r @ [(n, Some l)]) = r @ [(n, Some (l @ xs))]"
  by (simp add: extend_at_def)

lemma visited_mark:
  assumes "h k = Some u"
  shows "visited (h(k \<mapsto> u\<lparr>depth := - 1\<rparr>)) = insert k (visited h)"
  using assms unfolding visited_def by auto

lemma emitted_Nil: "agrees g h \<Longrightarrow> emitted g h h []"
  by (simp add: emitted_def)

lemma emitted_append:
  assumes "emitted g h h1 new1" "emitted g h1 h2 new2"
  shows "emitted g h h2 (new1 @ new2)"
proof -
  from assms have v1: "visited h1 = visited h \<union> set (map fst new1)"
    and v2: "visited h2 = visited h1 \<union> set (map fst new2)"
    and d1: "distinct (map fst new1)" and d2: "distinct (map fst new2)"
    and i1: "set (map fst new1) \<inter> visited h = {}"
    and i2: "set (map fst new2) \<inter> visited h1 = {}"
    and e1: "\<forall>e \<in> set new1. entry_ok g e" and e2: "\<forall>e \<in> set new2. entry_ok g e"
    and ag: "agrees g h2"
    unfolding emitted_def by blast+
  have a: "visited h2 = visited h \<union> set (map fst (new1 @ new2))" using v1 v2 by auto
  have b: "distinct (map fst (new1 @ new2))" using d1 d2 i2 v1 by auto
  have c: "set (map fst (new1 @ new2)) \<inter> visited h = {}" using i1 i2 v1 by auto
  have d: "\<forall>e \<in> set (new1 @ new2). entry_ok g e" using e1 e2 by auto
  show ?thesis unfolding emitted_def using ag a b c d by blast
qed

lemma emitted_visited_mono: "emitted g h h' new \<Longrightarrow> visited h \<subseteq> visited h'"
  unfolding emitted_def by blast

lemma unpadded_step: "unpadded ((replicate n ''_'' @ [v]) @ added) = unpadded (v # added)"
  by (simp add: unpadded_def)

lemma best_order_parents_total:
  assumes IH: "\<And>k h r. agrees g h \<Longrightarrow> k \<in> set (map fst g) \<Longrightarrow> rank k < f
            \<Longrightarrow> \<exists>h' r'. best_order_explore f k (h, r) = Inr (h', r') \<and> best_post g h r k h' r'"
  shows "agrees g h \<Longrightarrow> set vs \<subseteq> set (map fst g) \<Longrightarrow> \<forall>v \<in> set vs. rank v < f \<Longrightarrow> i < length r
         \<Longrightarrow> \<exists>h' r'. best_order_parents f i d vs (h, r) = Inr (h', r') \<and> parents_post g h r i vs h' r'"
proof (induction vs arbitrary: h r d)
  case Nil
  have "parents_post g h r i [] h r"
    unfolding parents_post_def using emitted_Nil[OF Nil.prems(1)]
    by (intro exI[of _ "[]"]) (simp add: extend_at_Nil)
  then show ?case by simp
next
  case (Cons v vs)
  from Cons.prems have v: "v \<in> set (map fst g)" "rank v < f" by auto
  from IH[OF Cons.prems(1) v] obtain h1 r1 where
    e1: "best_order_explore f v (h, r) = Inr (h1, r1)" and p1: "best_post g h r v h1 r1" by blast
  from p1 obtain new1 where r1: "r1 = r @ new1" and em1: "emitted g h h1 new1"
    and v1: "v \<in> visited h1" unfolding best_post_def by blast
  from em1 have a1: "agrees g h1" unfolding emitted_def by blast
  from agrees_key[OF a1 v(1)] have nm: "name (the (h1 v)) = v" by auto
  define x where "x = replicate (nat d) ''_'' @ [v]"
  define d' where "d' = int (length r1) - int (length r) - 1"
  define r1' where "r1' = extend_at i x r1"
  have r1'eq: "r1' = extend_at i x r @ new1"
    unfolding r1'_def r1 using Cons.prems(4) by (rule extend_at_append)
  have il: "i < length r1'" unfolding r1'_def using Cons.prems(4) r1 by (simp add: length_extend_at)
  from Cons.prems have vs: "set vs \<subseteq> set (map fst g)" "\<forall>v \<in> set vs. rank v < f" by auto
  from Cons.IH[OF a1 vs il, of d'] obtain h2 r2 where
    e2: "best_order_parents f i d' vs (h1, r1') = Inr (h2, r2)"
    and p2: "parents_post g h1 r1' i vs h2 r2" by blast
  from p2 obtain added new2 where r2: "r2 = extend_at i added r1' @ new2"
    and up: "unpadded added = unpadded vs" and len: "length vs \<le> length added"
    and em2: "emitted g h1 h2 new2" and sub: "set vs \<subseteq> visited h2"
    unfolding parents_post_def by blast
  have ev: "best_order_parents f i d (v # vs) (h, r) = Inr (h2, r2)"
    using e1 e2 nm unfolding x_def d'_def r1'_def by (simp add: Let_def)
  have "extend_at i added r1' = extend_at i (x @ added) r @ new1"
    unfolding r1'eq using Cons.prems(4)
    by (simp add: extend_at_append length_extend_at extend_at_twice)
  with r2 have r2': "r2 = extend_at i (x @ added) r @ (new1 @ new2)" by simp
  have up': "unpadded (x @ added) = unpadded (v # vs)"
    unfolding x_def unpadded_step using up by (simp add: unpadded_def)
  have len': "length (v # vs) \<le> length (x @ added)" unfolding x_def using len by simp
  have em: "emitted g h h2 (new1 @ new2)" by (rule emitted_append[OF em1 em2])
  have sub': "set (v # vs) \<subseteq> visited h2"
    using sub v1 emitted_visited_mono[OF em2] by auto
  have "parents_post g h r i (v # vs) h2 r2"
    unfolding parents_post_def using r2' up' len' em sub' by blast
  with ev show ?case by blast
qed

lemma agrees_mark:
  assumes "agrees g h" "h k = Some u"
  shows "agrees g (h(k \<mapsto> u\<lparr>depth := - 1\<rparr>))"
  using assms by (rule agrees_upd)

lemma best_order_explore_total:
  assumes cl: "closed g" and rk: "ranked g rank"
  shows "agrees g h \<Longrightarrow> k \<in> set (map fst g) \<Longrightarrow> rank k < f
         \<Longrightarrow> \<exists>h' r'. best_order_explore f k (h, r) = Inr (h', r') \<and> best_post g h r k h' r'"
proof (induction f arbitrary: k h r)
  case 0
  then show ?case by simp
next
  case (Suc f)
  from agrees_key[OF Suc.prems(1,2)] obtain u where hk: "h k = Some u" by blast
  from agrees_Some[OF Suc.prems(1) hk] have nm: "name u = k" and mg: "map_of g k = Some (parents u)"
    by auto
  show ?case
  proof (cases "depth u < 0")
    case True
    then have ev: "best_order_explore (Suc f) k (h, r) = Inr (h, r)" using hk by simp
    from True hk have "k \<in> visited h" unfolding visited_def by auto
    then have "best_post g h r k h r"
      unfolding best_post_def using emitted_Nil[OF Suc.prems(1)] by (intro exI[of _ "[]"]) simp
    with ev show ?thesis by blast
  next
    case nn: False
    then have knv: "k \<notin> visited h" using hk unfolding visited_def by auto
    let ?h1 = "h(k \<mapsto> u\<lparr>depth := - 1\<rparr>)"
    have a1: "agrees g ?h1" by (rule agrees_mark[OF Suc.prems(1) hk])
    have v1: "visited ?h1 = insert k (visited h)" by (rule visited_mark[of h k u, OF hk])
    show ?thesis
    proof (cases "truthy (parents u)")
      case False
      have ev: "best_order_explore (Suc f) k (h, r) = Inr (?h1, r @ [(k, parents u)])"
        using hk nn False nm by simp
      have eo: "entry_ok g (k, parents u)" unfolding entry_ok_def using mg False by simp
      have "emitted g h ?h1 [(k, parents u)]"
        unfolding emitted_def using a1 v1 knv eo by simp
      then have "best_post g h r k ?h1 (r @ [(k, parents u)])"
        unfolding best_post_def using v1 by blast
      with ev show ?thesis by blast
    next
      case True
      define ps where "ps = the (parents u)"
      from True have pv: "parents u = Some ps" unfolding ps_def by (rule truthy_Some)
      with mg have mg': "map_of g k = Some (Some ps)" by simp
      have sub: "set ps \<subseteq> set (map fst g)" using closedD[OF cl mg'] by blast
      have rks: "\<forall>p \<in> set ps. rank p < rank k" using rankedD[OF rk mg'] by blast
      define vs where "vs = sort_key (\<lambda>p. depth (the (?h1 p))) ps"
      have "\<forall>p \<in> set ps. ?h1 p \<noteq> None"
      proof
        fix p assume "p \<in> set ps"
        with sub have "p \<in> set (map fst g)" by blast
        from agrees_key[OF a1 this] show "?h1 p \<noteq> None" by auto
      qed
      then have sp: "sorted_parents ?h1 ps = Inr vs"
        unfolding sorted_parents_def vs_def by simp
      have svs: "set vs = set ps" and mvs: "mset vs = mset ps" unfolding vs_def by simp_all
      have vsub: "set vs \<subseteq> set (map fst g)" using sub svs by simp
      have vrk: "\<forall>v \<in> set vs. rank v < f" using rks svs Suc.prems(3) by auto
      let ?r1 = "r @ [(k, Some [])]"
      have il: "length r < length ?r1" by simp
      from best_order_parents_total[where g = g and rank = rank and f = f and vs = vs
          and h = ?h1 and i = "length r" and r = ?r1 and d = 0, OF Suc.IH a1 vsub vrk il]
      obtain h' r' where e1: "best_order_parents f (length r) 0 vs (?h1, ?r1) = Inr (h', r')"
        and p1: "parents_post g ?h1 ?r1 (length r) vs h' r'" by blast
      from p1 obtain added new where r': "r' = extend_at (length r) added ?r1 @ new"
        and up: "unpadded added = unpadded vs" and len: "length vs \<le> length added"
        and em: "emitted g ?h1 h' new" and vis: "set vs \<subseteq> visited h'"
        unfolding parents_post_def by blast
      have ev: "best_order_explore (Suc f) k (h, r) = Inr (h', r')"
        using hk nn True nm sp e1 unfolding ps_def by (simp add: Let_def)
      have r'': "r' = r @ ((k, Some added) # new)"
        unfolding r' using extend_at_last[of r added k "[]"] by simp
      have "mset (unpadded vs) = mset (unpadded ps)"
        unfolding unpadded_def mset_filter mvs by (rule refl)
      then have "mset (unpadded added) = mset (unpadded ps)" unfolding up .
      moreover have "length vs = length ps" using mvs by (rule mset_eq_length)
      with len have "length ps \<le> length added" by simp
      moreover have tp: "truthy (Some ps)" using True pv by simp
      ultimately have eo: "entry_ok g (k, Some added)"
        unfolding entry_ok_def using mg' by simp
      from em have ag': "agrees g h'" and vh': "visited h' = visited ?h1 \<union> set (map fst new)"
        and dn: "distinct (map fst new)" and dj: "set (map fst new) \<inter> visited ?h1 = {}"
        and en: "\<forall>e \<in> set new. entry_ok g e"
        unfolding emitted_def by blast+
      have kn: "k \<notin> set (map fst new)" using dj v1 by auto
      have "emitted g h h' ((k, Some added) # new)"
        unfolding emitted_def using ag' vh' v1 dn dj kn knv eo en by auto
      moreover have "k \<in> visited h'" using vh' v1 by simp
      ultimately have "best_post g h r k h' r'" unfolding best_post_def using r'' by blast
      with ev show ?thesis by blast
    qed
  qed
qed

lemma best_order_loop_total:
  assumes cl: "closed g" and rk: "ranked g rank" and fuel: "\<forall>k \<in> set (map fst g). rank k < f"
  shows "agrees g h \<Longrightarrow> set ks \<subseteq> set (map fst g)
         \<Longrightarrow> \<exists>h' new. best_order_loop f ks (h, r) = Inr (h', r @ new) \<and> emitted g h h' new
                \<and> set ks \<subseteq> visited h'"
proof (induction ks arbitrary: h r)
  case Nil
  from emitted_Nil[OF Nil.prems(1)] show ?case by (intro exI[of _ h] exI[of _ "[]"]) simp
next
  case (Cons k ks)
  from Cons.prems(2) have kin: "k \<in> set (map fst g)" and sub: "set ks \<subseteq> set (map fst g)" by auto
  from fuel kin have kf: "rank k < f" by blast
  from best_order_explore_total[OF cl rk Cons.prems(1) kin kf, of r] obtain h1 r1 where
    e1: "best_order_explore f k (h, r) = Inr (h1, r1)" and p1: "best_post g h r k h1 r1" by blast
  from p1 obtain new1 where r1: "r1 = r @ new1" and em1: "emitted g h h1 new1"
    and k1: "k \<in> visited h1" unfolding best_post_def by blast
  from em1 have a1: "agrees g h1" unfolding emitted_def by blast
  from Cons.IH[OF a1 sub, of r1] obtain h2 new2 where
    e2: "best_order_loop f ks (h1, r1) = Inr (h2, r1 @ new2)" and em2: "emitted g h1 h2 new2"
    and s2: "set ks \<subseteq> visited h2" by blast
  have ev: "best_order_loop f (k # ks) (h, r) = Inr (h2, r @ (new1 @ new2))"
    using e1 e2 r1 by simp
  have "set (k # ks) \<subseteq> visited h2" using s2 k1 emitted_visited_mono[OF em2] by auto
  with ev emitted_append[OF em1 em2] show ?case by blast
qed

lemma best_order_total:
  assumes dist: "distinct (map fst g)" and cl: "closed g" and ac: "acyclic (edges g)"
    and fuel: "length g \<le> f"
  shows "\<exists>r. best_order f g = Inr r \<and> mset (map fst r) = mset (map fst g)
             \<and> (\<forall>e \<in> set r. entry_ok g e)"
proof -
  have rf: "\<forall>k \<in> set (map fst g). rank_of g k < f"
    using rank_of_bound[OF cl ac] fuel by fastforce
  note rk = ranked_rank_of[OF ac]
  from depth_graph_total[OF cl rk rf] obtain h where
    dg: "depth_graph f g = Inr h" and ag: "agrees g h"
    and nn: "\<forall>k \<in> set (map fst g). \<exists>w. h k = Some w \<and> 0 \<le> depth w" by blast
  have v0: "visited h = {}"
  proof -
    have False if "k \<in> visited h" for k
    proof -
      from that obtain v where v: "h k = Some v" "depth v < 0" unfolding visited_def by auto
      from agrees_Some[OF ag v(1)] have "map_of g k \<noteq> None" by simp
      then have "k \<in> set (map fst g)" by (simp add: map_of_eq_None_iff)
      with nn v show False by fastforce
    qed
    then show ?thesis by blast
  qed
  have vo: "set (visit_order h (map fst g)) \<subseteq> set (map fst g)" unfolding visit_order_def by simp
  from best_order_loop_total[OF cl rk rf ag vo, of "[]"] obtain h' new where
    lp: "best_order_loop f (visit_order h (map fst g)) (h, []) = Inr (h', new)"
    and em: "emitted g h h' new" and all: "set (visit_order h (map fst g)) \<subseteq> visited h'" by auto
  have ev: "best_order f g = Inr (rev new)" unfolding best_order_def using dg lp by simp
  from em v0 have ag': "agrees g h'" and vh: "visited h' = set (map fst new)"
    and dn: "distinct (map fst new)" and en: "\<forall>e \<in> set new. entry_ok g e"
    unfolding emitted_def by auto
  have "set (map fst g) \<subseteq> set (map fst new)" using all vh unfolding visit_order_def by simp
  moreover have "set (map fst new) \<subseteq> set (map fst g)"
  proof
    fix k assume "k \<in> set (map fst new)"
    with vh obtain v where "h' k = Some v" unfolding visited_def by auto
    from agrees_Some[OF ag' this] have "map_of g k \<noteq> None" by simp
    then show "k \<in> set (map fst g)" by (simp add: map_of_eq_None_iff)
  qed
  ultimately have seteq: "set (map fst new) = set (map fst g)" by (rule equalityI[rotated])
  have "mset (map fst new) = mset (map fst g)"
    by (rule iffD1[OF set_eq_iff_mset_eq_distinct[OF dn dist] seteq])
  then have "mset (map fst (rev new)) = mset (map fst g)" by (simp add: rev_map)
  with ev en show ?thesis by auto
qed

lemma wrap_all_total:
  "\<forall>e \<in> set es. nm (fst e) \<noteq> None \<Longrightarrow> \<exists>ws. wrap_all nm es = Inr ws \<and> length ws = length es"
proof (induction es)
  case Nil
  show ?case by simp
next
  case (Cons e es)
  obtain n ps where e: "e = (n, ps)" by (cases e)
  from Cons.prems e obtain m where m: "nm n = Some m" by auto
  from Cons.prems have "\<forall>e \<in> set es. nm (fst e) \<noteq> None" by simp
  from Cons.IH[OF this] e m show ?case by auto
qed

lemma keys_dependencies: "map fst (dependencies nm) = map fst nm"
  unfolding dependencies_def by (induction nm) auto

section \<open>The resolved names\<close>

text \<open>
  C9, for a non-empty collection. When the collection has distinct keys, all arguments
  are keys and the dependencies are acyclic, \<open>_prob_chain_rule_flatten\<close> returns, given
  a bound on nested calls of at least the number of nodes; the resolved names are a
  permutation of the keys, and each of the four tuples has as many elements as the
  collection.
\<close>

theorem resolved_names_permutation:
  assumes ne: "named_makers \<noteq> []"
    and dist: "distinct (map fst named_makers)"
    and cl: "closed (dependencies named_makers)"
    and ac: "acyclic (edges (dependencies named_makers))"
    and fuel: "length named_makers \<le> f"
  shows "\<exists>r. (prob_chain_rule_flatten f named_makers :: error + ('d, 'v) resolved) = Inr r
            \<and> mset (dist_fn_name r) = mset (map fst named_makers)
            \<and> length (dist_fn r) = length named_makers
            \<and> length (dist_fn_wrapped r) = length named_makers
            \<and> length (dist_fn_args r) = length named_makers
            \<and> length (dist_fn_name r) = length named_makers"
proof -
  let ?g = "dependencies named_makers"
  have d: "distinct (map fst ?g)" using dist by (simp add: keys_dependencies)
  have l: "length ?g \<le> f" using fuel by (simp add: dependencies_def)
  from best_order_total[OF d cl ac l] obtain es where
    bo: "best_order f ?g = Inr es" and ms: "mset (map fst es) = mset (map fst named_makers)"
    by (auto simp: keys_dependencies)
  from ms have len: "length es = length named_makers"
    using mset_eq_length[OF ms] by simp
  with ne have nes: "es \<noteq> []" by auto
  from ms have st: "set (map fst es) = set (map fst named_makers)" by (rule mset_eq_setD)
  have "\<forall>e \<in> set es. map_of named_makers (fst e) \<noteq> None"
  proof
    fix e assume "e \<in> set es"
    then have "fst e \<in> set (map fst es)" by simp
    with st have "fst e \<in> set (map fst named_makers)" by simp
    then show "map_of named_makers (fst e) \<noteq> None" by (simp add: map_of_eq_None_iff)
  qed
  from wrap_all_total[OF this] obtain ws
    where ws: "(wrap_all (map_of named_makers) es :: error + ('v list \<Rightarrow> ('d maker, 'v) invocation) list) = Inr ws"
      and lw: "length ws = length es" by blast
  let ?r = "\<lparr>dist_fn = map (\<lambda>n. map_of named_makers n) (map fst es),
            dist_fn_wrapped = ws, dist_fn_args = map snd es, dist_fn_name = map fst es\<rparr>"
  have "prob_chain_rule_flatten f named_makers = Inr ?r"
    unfolding prob_chain_rule_flatten_def using bo nes ws by simp
  moreover have "mset (dist_fn_name ?r) = mset (map fst named_makers)" using ms by simp
  moreover have "length (dist_fn ?r) = length named_makers" using len by simp
  moreover have "length (dist_fn_wrapped ?r) = length named_makers" using len lw by simp
  moreover have "length (dist_fn_args ?r) = length named_makers" using len by simp
  moreover have "length (dist_fn_name ?r) = length named_makers" using len by simp
  ultimately show ?thesis by blast
qed

lemma docstring_dependencies: "dependencies docstring_model = docstring_graph"
  by (simp add: dependencies_def docstring_model_def docstring_graph_def required_args_def)

theorem resolved_names_permutation_witness:
  "docstring_model \<noteq> [] \<and> distinct (map fst docstring_model)
   \<and> closed (dependencies docstring_model) \<and> acyclic (edges (dependencies docstring_model))
   \<and> length docstring_model \<le> 5
   \<and> (\<exists>r. (prob_chain_rule_flatten 5 docstring_model :: error + (nat, nat) resolved) = Inr r
            \<and> mset (dist_fn_name r) = mset [''e'', ''g'', ''n'', ''m'', ''x'']
            \<and> length (dist_fn r) = 5
            \<and> length (dist_fn_wrapped r) = 5
            \<and> length (dist_fn_args r) = 5
            \<and> length (dist_fn_name r) = 5)"
proof -
  have n: "docstring_model \<noteq> []" by (simp add: docstring_model_def)
  have d: "distinct (map fst docstring_model)" by (simp add: docstring_model_def)
  have c: "closed (dependencies docstring_model)"
    unfolding docstring_dependencies by (simp add: docstring_graph_def closed_def)
  have "ranked docstring_graph
          (\<lambda>k. if k = ''x'' then 3 else if k = ''m'' then 2 else if k = ''g'' then 1 else 0)"
    by (auto simp: docstring_graph_def ranked_def)
  then have a: "acyclic (edges (dependencies docstring_model))"
    unfolding docstring_dependencies by (rule acyclic_ranked)
  have l: "length docstring_model \<le> 5" by (simp add: docstring_model_def)
  have k: "map fst docstring_model = [''e'', ''g'', ''n'', ''m'', ''x'']"
    by (simp add: docstring_model_def)
  have ll: "length docstring_model = 5" by (simp add: docstring_model_def)
  from resolved_names_permutation[OF n d c a l, where ?'v = nat] n d c a l
  show ?thesis unfolding k ll by blast
qed

text \<open>
  On the empty collection \<open>_best_order\<close> returns the empty tuple and the unpacking of
  the starred \<open>zip\<close> into two names raises \<open>ValueError\<close>: there are no four tuples.
\<close>

theorem empty_collection_unpacking:
  "(prob_chain_rule_flatten 1 ([] :: (string \<times> nat maker) list) :: error + (nat, nat) resolved)
     = Inl ValueError"
  by (simp add: prob_chain_rule_flatten_def dependencies_def best_order_def depth_graph_def
      visit_order_def)

section \<open>The offsets of a node\<close>

text \<open>
  C3, with the placeholders counted. For such a collection and a node that declares the
  distinct arguments \<open>ps\<close>, none of them called \<open>_\<close>, the offsets list of the node has
  at least as many slots as \<open>ps\<close>, its slots other than the placeholder are exactly the
  declared arguments, and every declared argument appears exactly once in it.
\<close>

theorem offsets_cover_declared_arguments:
  assumes dist: "distinct (map fst g)" and cl: "closed g" and ac: "acyclic (edges g)"
    and fuel: "length g \<le> f"
    and kp: "(k, Some ps) \<in> set g" and ne: "ps \<noteq> []"
    and np: "''_'' \<notin> set ps" and dp: "distinct ps"
  shows "\<exists>r l. best_order f g = Inr r \<and> (k, Some l) \<in> set r
            \<and> length ps \<le> length l
            \<and> mset (filter (\<lambda>x. x \<noteq> ''_'') l) = mset ps
            \<and> (\<forall>a \<in> set ps. count_list l a = 1)"
proof -
  from best_order_total[OF dist cl ac fuel] obtain r where
    bo: "best_order f g = Inr r" and ms: "mset (map fst r) = mset (map fst g)"
    and en: "\<forall>e \<in> set r. entry_ok g e" by blast
  from ms have st: "set (map fst r) = set (map fst g)" by (rule mset_eq_setD)
  from kp have "k \<in> set (map fst g)" by force
  with st have "k \<in> set (map fst r)" by simp
  then obtain e where e: "e \<in> set r" "fst e = k" by auto
  from dist kp have mg: "map_of g k = Some (Some ps)" by (rule map_of_is_SomeI)
  have tp: "truthy (Some ps)" using ne by (simp add: truthy_def)
  from en e(1) have "entry_ok g e" by blast
  with e(2) mg tp obtain l where l: "snd e = Some l"
    and ml: "mset (unpadded l) = mset (unpadded ps)" and len: "length ps \<le> length l"
    unfolding entry_ok_def by auto
  have "e = (k, Some l)" using e(2) l by (simp add: prod_eq_iff)
  with e(1) have mem: "(k, Some l) \<in> set r" by simp
  have up: "unpadded ps = ps" unfolding unpadded_def using np by (auto simp: filter_id_conv)
  from ml have "mset (unpadded l) = mset ps" unfolding up .
  then have ml': "mset (filter (\<lambda>x. x \<noteq> ''_'') l) = mset ps"
    unfolding unpadded_def .
  have cnt: "\<forall>a \<in> set ps. count_list l a = 1"
  proof
    fix a assume a: "a \<in> set ps"
    with np have an: "a \<noteq> ''_''" by auto
    have "count (mset ps) a = 1" using dp a by (simp add: distinct_count_atmost_1)
    with ml' have "count (mset (filter (\<lambda>x. x \<noteq> ''_'') l)) a = 1" by simp
    with an have "count (mset l) a = 1" by simp
    then show "count_list l a = 1" by (simp add: count_mset)
  qed
  from bo mem len ml' cnt show ?thesis by blast
qed

theorem offsets_cover_declared_arguments_witness:
  "distinct (map fst padded_graph) \<and> closed padded_graph \<and> acyclic (edges padded_graph)
   \<and> length padded_graph \<le> 5 \<and> (''u'', Some [''s'', ''t'']) \<in> set padded_graph
   \<and> [''s'', ''t''] \<noteq> [] \<and> ''_'' \<notin> set [''s'', ''t''] \<and> distinct [''s'', ''t'']
   \<and> (\<exists>r l. best_order 5 padded_graph = Inr r \<and> (''u'', Some l) \<in> set r
            \<and> length [''s'', ''t''] \<le> length l
            \<and> mset (filter (\<lambda>x. x \<noteq> ''_'') l) = mset [''s'', ''t'']
            \<and> (\<forall>a \<in> set [''s'', ''t'']. count_list l a = 1))"
proof -
  have d: "distinct (map fst padded_graph)" by (simp add: padded_graph_def)
  have c: "closed padded_graph" by (simp add: padded_graph_def closed_def)
  have "ranked padded_graph
          (\<lambda>k. if k = ''u'' then 2 else if k = ''s'' \<or> k = ''t'' then 1 else 0)"
    by (auto simp: padded_graph_def ranked_def)
  then have a: "acyclic (edges padded_graph)" by (rule acyclic_ranked)
  have l: "length padded_graph \<le> 5" by (simp add: padded_graph_def)
  have k: "(''u'', Some [''s'', ''t'']) \<in> set padded_graph" by (simp add: padded_graph_def)
  have n: "[''s'', ''t''] \<noteq> []" by simp
  have p: "''_'' \<notin> set [''s'', ''t'']" by simp
  have q: "distinct [''s'', ''t'']" by simp
  from offsets_cover_declared_arguments[OF d c a l k n p q] d c a l k n p q
  show ?thesis by blast
qed

text \<open>
  The node \<open>u\<close> declares two arguments and gets three offset slots: the placeholder
  stands for \<open>q\<close>, emitted between its parents \<open>s\<close> and \<open>t\<close>.
\<close>

theorem offsets_longer_than_arguments:
  "best_order 5 padded_graph =
     Inr [(''r'', None), (''t'', Some [''r'']), (''q'', None), (''s'', Some [''q'']),
          (''u'', Some [''s'', ''_'', ''t''])]"
  unfolding padded_graph_def by code_simp

section \<open>Flattening a named structure and back\<close>

lemma getattrs_total:
  "set names \<subseteq> set (map fst fs) \<Longrightarrow> getattrs inh fs names = Inr (map (\<lambda>n. the (map_of fs n)) names)"
proof (induction names)
  case Nil
  show ?case by simp
next
  case (Cons n ns)
  from Cons.prems have "map_of fs n \<noteq> None" by (simp add: map_of_eq_None_iff)
  then obtain v where "map_of fs n = Some v" by auto
  with Cons show ?case by (simp add: getattr_def)
qed

lemma flatten_Dict: "flatten inh names (Dict m) = Inr (map (got (Dict m)) names)"
  by (simp add: flatten_def got_def value_of_def)

lemma flatten_NamedTuple:
  assumes "set names \<subseteq> set (map fst fs)" "''get'' \<notin> set (map fst fs)"
  shows "flatten inh names (NamedTuple fs) = Inr (map (got (NamedTuple fs)) names)"
proof -
  have "map (\<lambda>n. the (map_of fs n)) names = map (got (NamedTuple fs)) names"
  proof (rule map_cong[OF refl])
    fix n assume "n \<in> set names"
    with assms(1) have "map_of fs n \<noteq> None" by (auto simp: map_of_eq_None_iff)
    then show "the (map_of fs n) = got (NamedTuple fs) n"
      by (auto simp: got_def value_of_def)
  qed
  with getattrs_total[OF assms(1)] assms(2) show ?thesis
    by (simp add: flatten_def hasattr_get_def)
qed

lemma map_upds_map:
  "(m(ns [\<mapsto>] map F ns)) n = (if n \<in> set ns then Some (F n) else m n)"
  by (induction ns arbitrary: m) auto

lemma map_of_tabulate:
  "map_of (map (\<lambda>f. (f, G f)) flds) n = (if n \<in> set flds then Some (G n) else None)"
  by (induction flds) auto

lemma unflatten_map:
  assumes "mt = DictType \<or> (\<exists>flds. mt = NamedTupleType flds \<and> set flds = set names)"
  shows "\<exists>y. unflatten mt names (map F names) = Inr y
            \<and> (\<forall>n \<in> set names. value_of y n = Some (F n))"
proof (cases mt)
  case DictType
  then show ?thesis by (simp add: unflatten_def value_of_def map_upds_map)
next
  case (NamedTupleType flds)
  with assms have fl: "set flds = set names" by auto
  have z: "map fst (zip names (map F names)) = names" by (simp add: map_fst_zip)
  have "unflatten mt names (map F names)
          = Inr (NamedTuple (map (\<lambda>f. (f, the ((Map.empty(names [\<mapsto>] map F names)) f))) flds))"
    unfolding unflatten_def NamedTupleType Let_def z using fl by simp
  moreover have "\<forall>n \<in> set names.
      value_of (NamedTuple (map (\<lambda>f. (f, the ((Map.empty(names [\<mapsto>] map F names)) f))) flds)) n
        = Some (F n)"
    using fl by (simp add: value_of_def map_of_tabulate map_upds_map)
  ultimately show ?thesis by blast
qed

text \<open>
  C7, with the record read by attribute. \<open>_flatten(None)\<close> is a tuple of \<open>None\<close> as
  long as the resolved names. On a dict \<open>_flatten\<close> never raises: a name that is no key
  gives \<open>None\<close>, a key gives its value. On a namedtuple that has every resolved name as
  a field (and no field called \<open>get\<close>) it returns the fields' values.
\<close>

theorem flatten_permissive:
  "flatten inh names (NoneStruct :: 'v struct) = Inr (replicate (length names) None)
   \<and> (\<exists>vs. flatten inh names (Dict m :: 'v struct) = Inr vs \<and> length vs = length names
          \<and> (\<forall>i < length names. (names ! i \<notin> dom m \<longrightarrow> vs ! i = None)
                \<and> (\<forall>v. m (names ! i) = Some v \<longrightarrow> vs ! i = v)))
   \<and> (set names \<subseteq> set (map fst fs) \<and> ''get'' \<notin> set (map fst fs)
        \<longrightarrow> (\<exists>vs. flatten inh names (NamedTuple fs :: 'v struct) = Inr vs \<and> length vs = length names
               \<and> (\<forall>i < length names. map_of fs (names ! i) = Some (vs ! i))))"
proof (intro conjI impI)
  show "flatten inh names (NoneStruct :: 'v struct) = Inr (replicate (length names) None)"
    by (simp add: flatten_def)
next
  have "\<forall>i < length names. (names ! i \<notin> dom m \<longrightarrow> map (got (Dict m)) names ! i = None)
          \<and> (\<forall>v. m (names ! i) = Some v \<longrightarrow> map (got (Dict m)) names ! i = v)"
    by (auto simp: got_def value_of_def dom_def)
  with flatten_Dict[of inh names m]
  show "\<exists>vs. flatten inh names (Dict m) = Inr vs \<and> length vs = length names
          \<and> (\<forall>i < length names. (names ! i \<notin> dom m \<longrightarrow> vs ! i = None)
                \<and> (\<forall>v. m (names ! i) = Some v \<longrightarrow> vs ! i = v))"
    by (intro exI[of _ "map (got (Dict m)) names"]) simp
next
  assume a: "set names \<subseteq> set (map fst fs) \<and> ''get'' \<notin> set (map fst fs)"
  have "\<forall>i < length names. map_of fs (names ! i) = Some (map (got (NamedTuple fs)) names ! i)"
  proof (intro allI impI)
    fix i assume i: "i < length names"
    then have "names ! i \<in> set names" by simp
    with a have "map_of fs (names ! i) \<noteq> None" by (auto simp: map_of_eq_None_iff)
    with i show "map_of fs (names ! i) = Some (map (got (NamedTuple fs)) names ! i)"
      by (auto simp: got_def value_of_def)
  qed
  with flatten_NamedTuple[of names fs inh] a
  show "\<exists>vs. flatten inh names (NamedTuple fs) = Inr vs \<and> length vs = length names
               \<and> (\<forall>i < length names. map_of fs (names ! i) = Some (vs ! i))"
    by (intro exI[of _ "map (got (NamedTuple fs)) names"]) simp
qed

theorem flatten_permissive_witness:
  "flatten tuple_attributes [''a'', ''b''] (NoneStruct :: nat struct) = Inr [None, None]
   \<and> flatten tuple_attributes [''a'', ''b''] (Dict [''a'' \<mapsto> Some (1::nat)]) = Inr [Some 1, None]
   \<and> set [''a'', ''b''] \<subseteq> set (map fst [(''b'', None), (''a'', Some (1::nat))])
   \<and> ''get'' \<notin> set (map fst [(''b'', None), (''a'', Some (1::nat))])
   \<and> flatten tuple_attributes [''a'', ''b''] (NamedTuple [(''b'', None), (''a'', Some (1::nat))]) = Inr [Some 1, None]"
proof -
  have h: "set [''a'', ''b''] \<subseteq> set (map fst [(''b'', None), (''a'', Some (1::nat))])
           \<and> ''get'' \<notin> set (map fst [(''b'', None), (''a'', Some (1::nat))])"
    by simp
  from flatten_permissive[of tuple_attributes "[''a'', ''b'']" "[''a'' \<mapsto> Some (1::nat)]"
      "[(''b'', None), (''a'', Some (1::nat))]"] h
  show ?thesis
    by (simp add: flatten_def hasattr_get_def getattr_def)
qed

text \<open>A name that is no field but an inherited attribute gives that attribute.\<close>

lemma flatten_inherited_attribute:
  "flatten tuple_attributes [''x'', ''count''] (NamedTuple [(''x'', Some (1::nat))])
     = Inr [Some 1, Some 0]"
  by (simp add: flatten_def hasattr_get_def getattr_def tuple_attributes_def)

text \<open>
  A namedtuple that lacks a resolved name, which is no inherited attribute either:
  \<open>getattr\<close> has no default and raises \<open>AttributeError\<close>.
\<close>

theorem flatten_record_missing_field:
  "''y'' \<notin> names_of (NamedTuple [(''x'', Some (1::nat))])
   \<and> flatten tuple_attributes [''x'', ''y''] (NamedTuple [(''x'', Some (1::nat))]) = Inl (AttributeError ''y'')"
  by (simp add: flatten_def hasattr_get_def getattr_def names_of_def tuple_attributes_def)

text \<open>
  C5, for the structures \<open>_flatten\<close> accepts. When the original model is a dict, or a
  namedtuple whose fields are the resolved names, then for every dict \<open>x\<close>, and for every
  namedtuple \<open>x\<close> that has every resolved name as a field (and no field called \<open>get\<close>),
  \<open>unflatten(flatten(x))\<close> returns a structure that holds, under each resolved name
  that \<open>x\<close> holds, the value \<open>x\<close> holds there.
\<close>

theorem unflatten_flatten_values:
  assumes mt: "mt = DictType \<or> (\<exists>flds. mt = NamedTupleType flds \<and> set flds = set names)"
    and x: "(\<exists>m. x = Dict m)
            \<or> (\<exists>fs. x = NamedTuple fs \<and> set names \<subseteq> set (map fst fs) \<and> ''get'' \<notin> set (map fst fs))"
  shows "\<exists>y. unflatten_flatten inh mt names x = Inr y
            \<and> (\<forall>n \<in> set names. \<forall>v. value_of x n = Some v \<longrightarrow> value_of y n = Some v)"
proof -
  from x have fl: "flatten inh names x = Inr (map (got x) names)"
    using flatten_Dict flatten_NamedTuple by blast
  from unflatten_map[OF mt, of "got x"] obtain y where
    y: "unflatten mt names (map (got x) names) = Inr y"
    and v: "\<forall>n \<in> set names. value_of y n = Some (got x n)" by blast
  have "unflatten_flatten inh mt names x = Inr y"
    unfolding unflatten_flatten_def using fl y by simp
  moreover have "\<forall>n \<in> set names. \<forall>v. value_of x n = Some v \<longrightarrow> value_of y n = Some v"
    using v by (simp add: got_def)
  ultimately show ?thesis by blast
qed

theorem unflatten_flatten_values_witness:
  "(NamedTupleType [''b'', ''a''] = DictType
      \<or> (\<exists>flds. NamedTupleType [''b'', ''a''] = NamedTupleType flds \<and> set flds = set [''a'', ''b'']))
   \<and> ((\<exists>m. Dict [''a'' \<mapsto> Some (1::nat)] = Dict m)
      \<or> (\<exists>fs. Dict [''a'' \<mapsto> Some (1::nat)] = NamedTuple fs \<and> set [''a'', ''b''] \<subseteq> set (map fst fs)
            \<and> ''get'' \<notin> set (map fst fs)))
   \<and> (\<exists>y. unflatten_flatten tuple_attributes (NamedTupleType [''b'', ''a'']) [''a'', ''b'']
              (Dict [''a'' \<mapsto> Some (1::nat)]) = Inr y
          \<and> (\<forall>n \<in> set [''a'', ''b'']. \<forall>v. value_of (Dict [''a'' \<mapsto> Some (1::nat)]) n = Some v
                \<longrightarrow> value_of y n = Some v))"
proof -
  have h1: "NamedTupleType [''b'', ''a''] = DictType
      \<or> (\<exists>flds. NamedTupleType [''b'', ''a''] = NamedTupleType flds \<and> set flds = set [''a'', ''b''])"
    by auto
  have h2: "(\<exists>m. Dict [''a'' \<mapsto> Some (1::nat)] = Dict m)
      \<or> (\<exists>fs. Dict [''a'' \<mapsto> Some (1::nat)] = NamedTuple fs \<and> set [''a'', ''b''] \<subseteq> set (map fst fs)
            \<and> ''get'' \<notin> set (map fst fs))"
    by simp
  from unflatten_flatten_values[OF h1 h2] h1 h2 show ?thesis by blast
qed

text \<open>
  A namedtuple whose fields are a proper subset of the resolved names: the round trip
  ends in the \<open>AttributeError\<close> of \<open>_flatten\<close>.
\<close>

theorem unflatten_flatten_record_subset:
  "names_of (NamedTuple [(''a'', Some (1::nat))]) \<subseteq> set [''a'', ''b'']
   \<and> unflatten_flatten tuple_attributes (NamedTupleType [''a'', ''b'']) [''a'', ''b'']
         (NamedTuple [(''a'', Some (1::nat))]) = Inl (AttributeError ''b'')"
  by (simp add: unflatten_flatten_def flatten_def hasattr_get_def getattr_def names_of_def
      tuple_attributes_def)

section \<open>A dependency that is no key\<close>

lemma agrees_put:
  assumes "agrees g h" "name v = k" "map_of g k = Some (parents v)"
  shows "agrees g (h(k \<mapsto> v\<lparr>depth := d\<rparr>))"
  unfolding agrees_def
proof
  fix x
  show "case map_of g x of None \<Rightarrow> (h(k \<mapsto> v\<lparr>depth := d\<rparr>)) x = None
        | Some ps \<Rightarrow> \<exists>da. (h(k \<mapsto> v\<lparr>depth := d\<rparr>)) x = Some \<lparr>name = x, parents = ps, depth = da\<rparr>"
  proof (cases "x = k")
    case True
    with assms(2,3) show ?thesis by (cases v) auto
  next
    case False
    with agrees_at[OF assms(1), of x] show ?thesis
      by (cases "map_of g x") auto
  qed
qed

lemma agrees_dom:
  assumes "agrees g h"
  shows "h k = None \<longleftrightarrow> k \<notin> set (map fst g)"
  using agrees_at[OF assms, of k]
  by (cases "map_of g k") (auto simp: map_of_eq_None_iff[symmetric])

lemma keeps_refl: "keeps h h"
  by (simp add: keeps_def)

lemma keeps_trans: "keeps h h1 \<Longrightarrow> keeps h1 h2 \<Longrightarrow> keeps h h2"
  unfolding keeps_def by blast

lemma keeps_put:
  assumes "keeps h h1" "0 \<le> d"
  shows "keeps h (h1(k \<mapsto> v\<lparr>depth := d\<rparr>))"
  unfolding keeps_def
proof (intro allI impI)
  fix x w assume "h x = Some w" "0 \<le> depth w"
  with assms(1) obtain w' where "h1 x = Some w'" "0 \<le> depth w'" unfolding keeps_def by blast
  with assms(2) show "\<exists>v'. (h1(k \<mapsto> v\<lparr>depth := d\<rparr>)) x = Some v' \<and> 0 \<le> depth v'"
    by (cases "x = k") auto
qed

lemma parents_present_put:
  assumes "parents_present g h1"
    and "truthy (parents v) \<Longrightarrow> set (the (parents v)) \<subseteq> set (map fst g)"
  shows "parents_present g (h1(k \<mapsto> v\<lparr>depth := d\<rparr>))"
  unfolding parents_present_def
proof (intro allI impI)
  fix x w
  assume a: "(h1(k \<mapsto> v\<lparr>depth := d\<rparr>)) x = Some w" "0 \<le> depth w" "truthy (parents w)"
  show "set (the (parents w)) \<subseteq> set (map fst g)"
  proof (cases "x = k")
    case True
    with a(1) have "parents w = parents v" by auto
    with a(3) assms(2) show ?thesis by simp
  next
    case False
    with a(1) have "h1 x = Some w" by simp
    with assms(1) a(2,3) show ?thesis unfolding parents_present_def by blast
  qed
qed

lemma ranked_keysD:
  assumes "ranked_keys g rank" "map_of g k = Some (Some ps)" "p \<in> set ps" "p \<in> set (map fst g)"
  shows "rank p < rank k"
proof -
  from assms(2) have "(k, Some ps) \<in> set g" by (rule map_of_SomeD)
  with assms(1,3,4) show ?thesis unfolding ranked_keys_def by blast
qed

lemma failure_Cons1: "failure g rank f [u] e \<Longrightarrow> failure g rank f (u # us) e"
  unfolding failure_def by auto

lemma failure_Cons2: "failure g rank f us e \<Longrightarrow> failure g rank f (u # us) e"
  unfolding failure_def by auto

lemma depth_parents_spec:
  assumes IH: "\<And>k h. agrees g h \<Longrightarrow> parents_present g h \<Longrightarrow> k \<in> set (map fst g)
            \<Longrightarrow> explore_spec g rank f h k (depth_explore f k h)"
  shows "agrees g h \<Longrightarrow> parents_present g h \<Longrightarrow> parents_spec g rank f h ps (depth_parents f ps h)"
proof (induction ps arbitrary: h)
  case Nil
  then show ?case by (simp add: parents_spec_def keeps_refl)
next
  case (Cons u us)
  show ?case
  proof (cases "h u")
    case None
    with agrees_dom[OF Cons.prems(1), of u] have "u \<notin> set (map fst g)" by simp
    then have "failure g rank f (u # us) (KeyError u)" unfolding failure_def by simp
    with None show ?thesis by (simp add: parents_spec_def)
  next
    case (Some v0)
    with agrees_dom[OF Cons.prems(1), of u] have uk: "u \<in> set (map fst g)" by auto
    note s1 = IH[OF Cons.prems uk]
    show ?thesis
    proof (cases "depth_explore f u h")
      case (Inl e)
      with s1 have "failure g rank f [u] e" by (simp add: explore_spec_def)
      then have "failure g rank f (u # us) e" by (rule failure_Cons1)
      with Some Inl show ?thesis by (simp add: parents_spec_def)
    next
      case (Inr dh)
      obtain d h1 where dh: "dh = (d, h1)" by (cases dh)
      with s1 Inr have a1: "agrees g h1" "parents_present g h1" "keeps h h1"
        by (simp_all add: explore_spec_def)
      note s2 = Cons.IH[OF a1(1,2)]
      show ?thesis
      proof (cases "depth_parents f us h1")
        case (Inl e)
        with s2 have "failure g rank f us e" by (simp add: parents_spec_def)
        then have "failure g rank f (u # us) e" by (rule failure_Cons2)
        with Some Inr dh Inl show ?thesis by (simp add: parents_spec_def)
      next
        case r2: (Inr dsh)
        obtain ds h2 where dsh: "dsh = (ds, h2)" by (cases dsh)
        with s2 r2 have a2: "agrees g h2" "parents_present g h2" "keeps h1 h2"
          "set us \<subseteq> set (map fst g)" by (simp_all add: parents_spec_def)
        from keeps_trans[OF a1(3) a2(3)] a2 uk Some Inr dh r2 dsh show ?thesis
          by (simp add: parents_spec_def)
      qed
    qed
  qed
qed

lemma depth_explore_spec:
  "agrees g h \<Longrightarrow> parents_present g h \<Longrightarrow> k \<in> set (map fst g)
   \<Longrightarrow> explore_spec g rank f h k (depth_explore f k h)"
proof (induction f arbitrary: k h)
  case 0
  then show ?case by (simp add: explore_spec_def failure_def)
next
  case (Suc f)
  note kin = Suc.prems(3)
  from agrees_key[OF Suc.prems(1,3)] obtain v where hk: "h k = Some v" by blast
  from agrees_Some[OF Suc.prems(1) hk] have nm: "name v = k" and mg: "map_of g k = Some (parents v)"
    by auto
  show ?case
  proof (cases "depth v < 0")
    case False
    with hk Suc.prems(1,2) show ?thesis by (simp add: explore_spec_def keeps_refl)
  next
    case neg: True
    show ?thesis
    proof (cases "truthy (parents v)")
      case False
      have "agrees g (h(k \<mapsto> v\<lparr>depth := 0\<rparr>))" by (rule agrees_put[OF Suc.prems(1) nm mg])
      moreover have "set (the (parents v)) \<subseteq> set (map fst g)" if "truthy (parents v)"
        using that False by simp
      then have "parents_present g (h(k \<mapsto> v\<lparr>depth := 0\<rparr>))"
        by (rule parents_present_put[OF Suc.prems(2)])
      moreover have "keeps h (h(k \<mapsto> v\<lparr>depth := 0\<rparr>))" by (rule keeps_put[OF keeps_refl]) simp
      ultimately show ?thesis using hk neg False by (simp add: explore_spec_def)
    next
      case True
      define ps where "ps = the (parents v)"
      from True have pv: "parents v = Some ps" unfolding ps_def by (rule truthy_Some)
      with mg have mg': "map_of g k = Some (Some ps)" by simp
      have s1: "parents_spec g rank f h ps (depth_parents f ps h)"
        by (rule depth_parents_spec[OF Suc.IH Suc.prems(1,2)])
      show ?thesis
      proof (cases "depth_parents f ps h")
        case (Inl e)
        with s1 have fl: "failure g rank f ps e" by (simp add: parents_spec_def)
        have "failure g rank (Suc f) [k] e"
        proof (cases "e = RecursionError")
          case False
          with fl show ?thesis unfolding failure_def by simp
        next
          case e: True
          have "\<exists>k' \<in> set [k]. k' \<in> set (map fst g) \<and> Suc f \<le> rank k'" if rk: "ranked_keys g rank"
          proof -
            from fl e rk obtain p where p: "p \<in> set ps" "p \<in> set (map fst g)" "f \<le> rank p"
              unfolding failure_def by auto
            from ranked_keysD[OF rk mg' p(1,2)] p(3) kin show ?thesis by simp
          qed
          with e show ?thesis unfolding failure_def by blast
        qed
        with hk neg True Inl show ?thesis by (simp add: explore_spec_def ps_def)
      next
        case (Inr dsh)
        obtain ds h1 where dsh: "dsh = (ds, h1)" by (cases dsh)
        with s1 Inr have a1: "agrees g h1" "parents_present g h1" "keeps h h1"
          "set ps \<subseteq> set (map fst g)" by (simp_all add: parents_spec_def)
        define d where "d = 1 + fold max ds (- 1)"
        have d0: "0 \<le> d" using fold_max_ge[of "- 1" ds] unfolding d_def by simp
        have "agrees g (h1(k \<mapsto> v\<lparr>depth := d\<rparr>))" by (rule agrees_put[OF a1(1) nm mg])
        moreover have "set (the (parents v)) \<subseteq> set (map fst g)" if "truthy (parents v)"
          using a1(4) unfolding ps_def .
        then have "parents_present g (h1(k \<mapsto> v\<lparr>depth := d\<rparr>))"
          by (rule parents_present_put[OF a1(2)])
        moreover have "keeps h (h1(k \<mapsto> v\<lparr>depth := d\<rparr>))" by (rule keeps_put[OF a1(3) d0])
        ultimately show ?thesis using hk neg True Inr dsh d0
          by (simp add: explore_spec_def ps_def d_def Let_def)
      qed
    qed
  qed
qed

lemma depth_loop_spec:
  "agrees g h \<Longrightarrow> parents_present g h \<Longrightarrow> set ks \<subseteq> set (map fst g)
   \<Longrightarrow> loop_spec g rank f h ks (depth_loop f ks h)"
proof (induction ks arbitrary: h)
  case Nil
  then show ?case by (simp add: loop_spec_def keeps_refl)
next
  case (Cons k ks)
  from Cons.prems(3) have kin: "k \<in> set (map fst g)" and sub: "set ks \<subseteq> set (map fst g)" by auto
  note s1 = depth_explore_spec[OF Cons.prems(1,2) kin, of rank f]
  show ?case
  proof (cases "depth_explore f k h")
    case (Inl e)
    with s1 have "failure g rank f [k] e" by (simp add: explore_spec_def)
    then have "failure g rank f (k # ks) e" by (rule failure_Cons1)
    with Inl show ?thesis by (simp add: loop_spec_def)
  next
    case (Inr dh)
    obtain d h1 where dh: "dh = (d, h1)" by (cases dh)
    with s1 Inr have a1: "agrees g h1" "parents_present g h1" "keeps h h1"
      and k1: "\<exists>v. h1 k = Some v \<and> 0 \<le> depth v" by (simp_all add: explore_spec_def)
    note s2 = Cons.IH[OF a1(1,2) sub]
    show ?thesis
    proof (cases "depth_loop f ks h1")
      case (Inl e)
      with s2 have "failure g rank f ks e" by (simp add: loop_spec_def)
      then have "failure g rank f (k # ks) e" by (rule failure_Cons2)
      with Inr dh Inl show ?thesis by (simp add: loop_spec_def)
    next
      case r2: (Inr h2)
      with s2 have a2: "agrees g h2" "parents_present g h2" "keeps h1 h2"
        and ks2: "\<forall>k \<in> set ks. \<exists>v. h2 k = Some v \<and> 0 \<le> depth v" by (simp_all add: loop_spec_def)
      from k1 a2(3) have "\<exists>v. h2 k = Some v \<and> 0 \<le> depth v" unfolding keeps_def by blast
      with ks2 keeps_trans[OF a1(3) a2(3)] a2(1,2) Inr dh r2 show ?thesis
        by (simp add: loop_spec_def)
    qed
  qed
qed

lemma parents_present_annotate: "parents_present g (annotate g)"
proof -
  have "\<And>k v. annotate g k = Some v \<Longrightarrow> depth v = - 1"
    unfolding annotate_def by (auto simp: map_of_annotate)
  then show ?thesis unfolding parents_present_def by fastforce
qed

lemma depth_graph_missing:
  assumes dist: "distinct (map fst g)"
    and kp: "(k, Some ps) \<in> set g" and p: "p \<in> set ps" and np: "p \<notin> set (map fst g)"
  shows "\<exists>e. depth_graph f g = Inl e \<and> failure g rank f (map fst g) e"
proof -
  have sp: "loop_spec g rank f (annotate g) (map fst g) (depth_graph f g)"
    unfolding depth_graph_def
    by (rule depth_loop_spec[OF agrees_annotate parents_present_annotate subset_refl])
  show ?thesis
  proof (cases "depth_graph f g")
    case (Inl e)
    with sp show ?thesis by (simp add: loop_spec_def)
  next
    case (Inr h)
    with sp have ag: "agrees g h" and pp: "parents_present g h"
      and nn: "\<forall>k \<in> set (map fst g). \<exists>v. h k = Some v \<and> 0 \<le> depth v"
      by (simp_all add: loop_spec_def)
    from kp have "k \<in> set (map fst g)" by force
    with nn obtain v where v: "h k = Some v" "0 \<le> depth v" by blast
    from dist kp have "map_of g k = Some (Some ps)" by (rule map_of_is_SomeI)
    with agrees_Some[OF ag v(1)] have pv: "parents v = Some ps" by simp
    with p have "truthy (parents v)" by (auto simp: truthy_def)
    with pp v pv have "set ps \<subseteq> set (map fst g)" unfolding parents_present_def by fastforce
    with p np show ?thesis by blast
  qed
qed

lemma keys_restrict_keys: "map fst (restrict_keys g) = map fst g"
  unfolding restrict_keys_def by (induction g) auto

lemma restrict_keys_mem:
  assumes "(k, ps) \<in> set (restrict_keys g)"
  shows "\<exists>qs. (k, qs) \<in> set g \<and> ps = map_option (filter (\<lambda>p. p \<in> set (map fst g))) qs"
  using assms unfolding restrict_keys_def by auto

lemma closed_restrict_keys: "closed (restrict_keys g)"
proof -
  have "p \<in> set (map fst (restrict_keys g))"
    if e: "(k, ps) \<in> set (restrict_keys g)"
      and p: "p \<in> set (case ps of None \<Rightarrow> [] | Some l \<Rightarrow> l)" for k ps p
  proof -
    from restrict_keys_mem[OF e] obtain qs where
      ps: "ps = map_option (filter (\<lambda>p. p \<in> set (map fst g))) qs" by blast
    from p have "p \<in> set (map fst g)" unfolding ps by (cases qs) auto
    then show ?thesis by (simp add: keys_restrict_keys)
  qed
  then show ?thesis unfolding closed_def by fast
qed

lemma length_restrict_keys: "length (restrict_keys g) = length g"
  by (simp add: restrict_keys_def)

lemma edges_restrict_keys: "edges (restrict_keys g) \<subseteq> edges g"
proof
  fix e assume "e \<in> edges (restrict_keys g)"
  then obtain p k ps where e: "e = (p, k)" and kp: "(k, Some ps) \<in> set (restrict_keys g)"
    and p: "p \<in> set ps" unfolding edges_def by auto
  from restrict_keys_mem[OF kp] obtain qs where q: "(k, qs) \<in> set g"
    and ps: "Some ps = map_option (filter (\<lambda>p. p \<in> set (map fst g))) qs" by blast
  from ps obtain l where l: "qs = Some l" "ps = filter (\<lambda>p. p \<in> set (map fst g)) l"
    by (cases qs) auto
  with p have "p \<in> set l" by simp
  with q l(1) show "e \<in> edges g" unfolding e edges_def by auto
qed

lemma ranked_keys_restrict:
  assumes "ranked (restrict_keys g) rank"
  shows "ranked_keys g rank"
  unfolding ranked_keys_def
proof (intro allI impI)
  fix k ps p
  assume kp: "(k, Some ps) \<in> set g" and p: "p \<in> set ps" and pk: "p \<in> set (map fst g)"
  from kp have "(k, Some (filter (\<lambda>p. p \<in> set (map fst g)) ps)) \<in> set (restrict_keys g)"
    unfolding restrict_keys_def by force
  moreover from p pk have "p \<in> set (filter (\<lambda>p. p \<in> set (map fst g)) ps)" by simp
  ultimately show "rank p < rank k" using assms unfolding ranked_def by blast
qed

lemma acyclic_rank_keys:
  assumes ac: "acyclic (edges g)" and fuel: "length g \<le> f"
  shows "\<exists>rank. ranked_keys g rank \<and> (\<forall>k \<in> set (map fst g). rank k < f)"
proof -
  let ?g = "restrict_keys g"
  have ac': "acyclic (edges ?g)" by (rule acyclic_subset[OF ac edges_restrict_keys])
  have "ranked_keys g (rank_of ?g)"
    by (rule ranked_keys_restrict[OF ranked_rank_of[OF ac']])
  moreover have "\<forall>k \<in> set (map fst g). rank_of ?g k < f"
  proof
    fix k assume "k \<in> set (map fst g)"
    then have "k \<in> set (map fst ?g)" by (simp add: keys_restrict_keys)
    from rank_of_bound[OF closed_restrict_keys ac' this] fuel
    show "rank_of ?g k < f" unfolding length_restrict_keys by linarith
  qed
  ultimately show ?thesis by blast
qed

lemma cyclic_dangling_explore:
  assumes "h ''a'' = Some v" "depth v < 0" "parents v = Some [''a'', ''z'']"
  shows "depth_explore f ''a'' h = Inl RecursionError"
  using assms
proof (induction f)
  case 0
  show ?case by simp
next
  case (Suc f)
  from Suc.IH[OF Suc.prems] Suc.prems show ?case by (simp add: truthy_def)
qed

lemma cyclic_dangling_raises:
  "(prob_chain_rule_flatten f cyclic_dangling_model :: error + (nat, nat) resolved)
     = Inl RecursionError"
proof -
  have h: "annotate (dependencies cyclic_dangling_model) ''a''
             = Some \<lparr>name = ''a'', parents = Some [''a'', ''z''], depth = - 1\<rparr>"
    by (simp add: annotate_def dependencies_def cyclic_dangling_model_def required_args_def)
  have "depth_explore f ''a'' (annotate (dependencies cyclic_dangling_model)) = Inl RecursionError"
    by (rule cyclic_dangling_explore[of "annotate (dependencies cyclic_dangling_model)"
          "\<lparr>name = ''a'', parents = Some [''a'', ''z''], depth = - 1\<rparr>", OF h]) simp_all
  then have "depth_graph f (dependencies cyclic_dangling_model) = Inl RecursionError"
    unfolding depth_graph_def
    by (simp add: dependencies_def cyclic_dangling_model_def required_args_def)
  then show ?thesis
    unfolding prob_chain_rule_flatten_def best_order_def by simp
qed

text \<open>
  C6, with the exception the code raises. When some callable of the collection requires
  an argument that is no key, \<open>_prob_chain_rule_flatten\<close> raises while \<open>_depth\<close> runs,
  whatever the bound on nested calls, so that no wrapper is ever built or called. There
  is no dedicated error: the exception is the \<open>KeyError\<close> of the subscript, for a name
  that is no key, or \<open>RecursionError\<close>. On an acyclic collection, with a bound of at
  least the number of nodes, it is the \<open>KeyError\<close>.
\<close>

theorem missing_dependency_raises:
  assumes dist: "distinct (map fst named_makers)"
    and km: "(k, Callable c as) \<in> set named_makers" and p: "p \<in> set as"
    and np: "p \<notin> set (map fst named_makers)"
  shows "\<exists>e. (prob_chain_rule_flatten f named_makers :: error + ('d, 'v) resolved) = Inl e
            \<and> best_order f (dependencies named_makers) = Inl e
            \<and> (e = RecursionError \<or> (\<exists>q. e = KeyError q \<and> q \<notin> set (map fst named_makers)))
            \<and> (acyclic (edges (dependencies named_makers)) \<and> length named_makers \<le> f
                 \<longrightarrow> (\<exists>q. e = KeyError q \<and> q \<notin> set (map fst named_makers)))"
proof -
  let ?g = "dependencies named_makers"
  have d: "distinct (map fst ?g)" using dist by (simp add: keys_dependencies)
  from km have kp: "(k, Some as) \<in> set ?g"
    unfolding dependencies_def required_args_def by force
  have np': "p \<notin> set (map fst ?g)" using np by (simp add: keys_dependencies)
  have fail: "\<exists>e. depth_graph f ?g = Inl e \<and> failure ?g rank f (map fst ?g) e" for rank
    by (rule depth_graph_missing[OF d kp p np'])
  from fail[of "\<lambda>_. 0"] obtain e where dg: "depth_graph f ?g = Inl e" by blast
  have fl: "failure ?g rank f (map fst ?g) e" for rank
    using fail[of rank] dg by auto
  have bo: "best_order f ?g = Inl e" unfolding best_order_def using dg by simp
  then have pc: "(prob_chain_rule_flatten f named_makers :: error + ('d, 'v) resolved) = Inl e"
    unfolding prob_chain_rule_flatten_def by simp
  have k1: "e = RecursionError \<or> (\<exists>q. e = KeyError q \<and> q \<notin> set (map fst named_makers))"
    using fl[of "\<lambda>_. 0"] unfolding failure_def by (auto simp: keys_dependencies)
  have k2: "\<exists>q. e = KeyError q \<and> q \<notin> set (map fst named_makers)"
    if a: "acyclic (edges ?g) \<and> length named_makers \<le> f"
  proof -
    from a have "length ?g \<le> f" by (simp add: dependencies_def)
    with a acyclic_rank_keys[of ?g f] obtain rank where
      rk: "ranked_keys ?g rank" and bd: "\<forall>k \<in> set (map fst ?g). rank k < f" by blast
    have "e \<noteq> RecursionError"
    proof
      assume "e = RecursionError"
      with fl[of rank] rk obtain k' where "k' \<in> set (map fst ?g)" "f \<le> rank k'"
        unfolding failure_def by auto
      with bd show False by fastforce
    qed
    with k1 show ?thesis by blast
  qed
  from pc bo k1 k2 show ?thesis by blast
qed

theorem missing_dependency_raises_witness:
  "distinct (map fst dangling_model) \<and> (''b'', Callable 1 [''a'', ''z'']) \<in> set dangling_model
   \<and> ''z'' \<in> set [''a'', ''z''] \<and> ''z'' \<notin> set (map fst dangling_model)
   \<and> acyclic (edges (dependencies dangling_model)) \<and> length dangling_model \<le> 2
   \<and> (\<exists>q. (prob_chain_rule_flatten 2 dangling_model :: error + (nat, nat) resolved)
              = Inl (KeyError q)
          \<and> q \<notin> set (map fst dangling_model))"
proof -
  have d: "distinct (map fst dangling_model)" by (simp add: dangling_model_def)
  have k: "(''b'', Callable 1 [''a'', ''z'']) \<in> set dangling_model" by (simp add: dangling_model_def)
  have p: "''z'' \<in> set [''a'', ''z'']" by simp
  have n: "''z'' \<notin> set (map fst dangling_model)" by (simp add: dangling_model_def)
  have "ranked (dependencies dangling_model) (\<lambda>k. if k = ''b'' then 1 else 0)"
    by (auto simp: dangling_model_def dependencies_def required_args_def ranked_def)
  then have a: "acyclic (edges (dependencies dangling_model))" by (rule acyclic_ranked)
  have l: "length dangling_model \<le> 2" by (simp add: dangling_model_def)
  from missing_dependency_raises[OF d k p n, of 2, where ?'v = nat]
  obtain e where e: "(prob_chain_rule_flatten 2 dangling_model :: error + (nat, nat) resolved) = Inl e"
    and c: "acyclic (edges (dependencies dangling_model)) \<and> length dangling_model \<le> 2
             \<longrightarrow> (\<exists>q. e = KeyError q \<and> q \<notin> set (map fst dangling_model))"
    by blast
  from c a l e have "\<exists>q. (prob_chain_rule_flatten 2 dangling_model :: error + (nat, nat) resolved)
              = Inl (KeyError q) \<and> q \<notin> set (map fst dangling_model)" by blast
  with d k p n a l show ?thesis by blast
qed

text \<open>
  A callable that requires itself and then a name that is no key: the recursion never
  reaches the missing name, and at the interpreter's default limit of 1000, as at any
  other, the exception is \<open>RecursionError\<close>.
\<close>

theorem missing_dependency_behind_cycle:
  "''z'' \<notin> set (map fst cyclic_dangling_model)
   \<and> (prob_chain_rule_flatten 1000 cyclic_dangling_model :: error + (nat, nat) resolved)
       = Inl RecursionError"
  using cyclic_dangling_raises[of 1000] by (simp add: cyclic_dangling_model_def)

section \<open>Determinism and the order of ties\<close>



























section \<open>The placeholder and the keyword arguments\<close>

text \<open>
  C10. Whatever the recorded argument list and the outputs so far, the keyword arguments
  that \<open>_fn\<close> passes to the maker have no key \<open>'_'\<close>: a maker that declares an argument
  called \<open>_\<close> is never passed a value for it.
\<close>

theorem make_never_passes_placeholder:
  "make fn args xs = Call_dist_fn m kwargs \<Longrightarrow> kwargs ''_'' = None"
  by (auto simp: make_def Let_def split: option.splits if_splits)

theorem make_never_passes_placeholder_witness:
  "make (0::nat) (Some [''_'', ''a'']) [5::nat, 7]
     = Call_dist_fn 0 ((Map.empty([''_'', ''a''] [\<mapsto>] [7, 5]))(''_'' := None))
   \<and> ((Map.empty([''_'', ''a''] [\<mapsto>] [7::nat, 5]))(''_'' := None)) ''_'' = None
   \<and> ((Map.empty([''_'', ''a''] [\<mapsto>] [7::nat, 5]))(''_'' := None)) ''a'' = Some 5"
proof -
  have h: "make (0::nat) (Some [''_'', ''a'']) [5::nat, 7]
     = Call_dist_fn 0 ((Map.empty([''_'', ''a''] [\<mapsto>] [7, 5]))(''_'' := None))"
    by (simp add: make_def last_n_def)
  from make_never_passes_placeholder [OF h] h show ?thesis by simp
qed

section \<open>A parent shared by two children\<close>

lemma shared_parent_acyclic: "acyclic (edges shared_parent_graph)"
proof -
  have "ranked shared_parent_graph (\<lambda>k. if k = ''a'' then 0 else 1)"
    by (auto simp: shared_parent_graph_def ranked_def)
  then show ?thesis by (rule acyclic_ranked)
qed

lemma shared_parent_order:
  "best_order 3 shared_parent_graph
     = Inr [(''c'', Some [''a'']), (''a'', Some []), (''b'', Some [''a''])]"
  unfolding shared_parent_graph_def by code_simp

text \<open>
  The collection \<open>{a: (), b: (a,), c: (a,)}\<close> has distinct keys, only keys as arguments
  and acyclic dependencies, and the bound 3 on nested calls covers its three nodes.
\<close>

lemma shared_parent_well_formed:
  "distinct (map fst shared_parent_graph) \<and> closed shared_parent_graph
   \<and> acyclic (edges shared_parent_graph) \<and> length shared_parent_graph \<le> 3"
  using shared_parent_acyclic by (simp add: shared_parent_graph_def closed_def)

text \<open>
  C1. The resolved order of this collection puts \<open>c\<close> at position 0 and the parent \<open>a\<close>
  of \<open>c\<close> at position 1: \<open>a\<close> was emitted while \<open>b\<close> was explored, and \<open>c\<close>, explored
  later, lands in front of it when the result is reversed.
\<close>

theorem best_order_shared_parent:
  "best_order 3 shared_parent_graph
     = Inr [(''c'', Some [''a'']), (''a'', Some []), (''b'', Some [''a''])]"
  unfolding shared_parent_graph_def by code_simp

text \<open>
  C2. On the same collection, given as makers, the entry at position 0 is \<open>c\<close> with the
  recorded arguments \<open>['a']\<close>, and no entry precedes it. Its wrapper is called on the
  empty history and calls the maker of \<open>c\<close> without a value for \<open>a\<close>.
\<close>

theorem wrapper_shared_parent:
  "dependencies shared_parent_model = shared_parent_graph
   \<and> \<not> isl (prob_chain_rule_flatten 3 shared_parent_model :: error + (nat, nat) resolved)
   \<and> dist_fn_name (projr (prob_chain_rule_flatten 3 shared_parent_model
                            :: error + (nat, nat) resolved)) = [''c'', ''a'', ''b'']
   \<and> dist_fn_args (projr (prob_chain_rule_flatten 3 shared_parent_model
                            :: error + (nat, nat) resolved)) = [Some [''a''], Some [], Some [''a'']]
   \<and> call_wrapped (projr (prob_chain_rule_flatten 3 shared_parent_model
                            :: error + (nat, nat) resolved)) 0 []
       = Call_dist_fn (Callable 2 [''a'']) Map.empty"
proof -
  have dp: "dependencies shared_parent_model = shared_parent_graph"
    by (simp add: dependencies_def shared_parent_model_def shared_parent_graph_def
        required_args_def)
  have nm: "map_of shared_parent_model ''c'' = Some (Callable 2 [''a''])"
    "map_of shared_parent_model ''a'' = Some (Callable 0 [])"
    "map_of shared_parent_model ''b'' = Some (Callable 1 [''a''])"
    by (simp_all add: shared_parent_model_def)
  show ?thesis
    by (simp add: prob_chain_rule_flatten_def dp shared_parent_order nm call_wrapped_def
        make_def last_n_def)
qed

end
